theory Spec2Isabelle
  imports Complex_Main "HOL-Library.Word" "HOL-Library.AList"
begin

section \<open>JavaScript values\<close>

text \<open>
  The guard compiler of \<^verbatim>\<open>workerRunner.ts\<close> (its second part, the module \<^verbatim>\<open>Guard\<close>)
  turns a \<^verbatim>\<open>Meta\<close> tree into a predicate over \<^verbatim>\<open>unknown\<close>. The embedding below gives the
  values such a predicate can be asked about, then the combinators and \<^verbatim>\<open>go\<close>.

  A number is an IEEE double: \<open>NaN\<close>, an infinity, or a finite value, which is a
  rational. The two zeros are one value here; \<^verbatim>\<open>>=\<close>, \<^verbatim>\<open><=\<close> and \<^verbatim>\<open>===\<close> do not tell
  them apart.
\<close>

datatype jsnum = NaN | NegInf | Fin rat | PosInf

text \<open>\<^verbatim>\<open>a >= b\<close> and \<^verbatim>\<open>a <= b\<close> on numbers: false as soon as one side is \<open>NaN\<close>.\<close>

fun js_le :: "jsnum \<Rightarrow> jsnum \<Rightarrow> bool" where
  "js_le NaN _ = False"
| "js_le _ NaN = False"
| "js_le NegInf _ = True"
| "js_le _ PosInf = True"
| "js_le (Fin x) (Fin y) = (x \<le> y)"
| "js_le (Fin x) NegInf = False"
| "js_le PosInf (Fin y) = False"
| "js_le PosInf NegInf = False"

definition js_ge :: "jsnum \<Rightarrow> jsnum \<Rightarrow> bool" where
  "js_ge a b = js_le b a"

text \<open>\<^verbatim>\<open>a === b\<close> on numbers.\<close>

fun num_equals :: "jsnum \<Rightarrow> jsnum \<Rightarrow> bool" where
  "num_equals NaN _ = False"
| "num_equals _ NaN = False"
| "num_equals a b = (a = b)"

text \<open>
  A string is a sequence of UTF-16 code units, and \<^verbatim>\<open>length\<close> counts them. \<open>ascii\<close>
  writes the string whose code units are the codes of the given characters.
\<close>

type_synonym jsstring = "16 word list"

definition ascii :: "string \<Rightarrow> jsstring" where
  "ascii s = map of_char s"

text \<open>A symbol has an identity and an optional description.\<close>

datatype symbol = Symbol (ident: nat) (description: "jsstring option")

text \<open>
  What is thrown: an \<^verbatim>\<open>Error\<close> with its message, or a \<^verbatim>\<open>TypeError\<close>.
\<close>

datatype error = Error jsstring | TypeError

text \<open>
  The values. \<open>Arr xs\<close> is a genuine array (\<^verbatim>\<open>Array.isArray\<close>) with the elements \<open>xs\<close> and
  no hole. \<open>Obj c own inh\<close> is an object whose properties are data: \<open>c\<close> is \<open>Some k\<close> when
  the object is callable (it is the function number \<open>k\<close>, and \<^verbatim>\<open>typeof\<close> says
  \<^verbatim>\<open>"function"\<close>); \<open>own\<close> lists its own enumerable string-keyed properties in the order
  of \<^verbatim>\<open>Object.keys\<close>; \<open>inh\<close> lists the other properties a read can reach, the own ones
  that are not enumerable and the ones inherited along the prototype chain. A read
  of such an object takes an own property first; it returns the value listed and
  does nothing else. An object literal \<^verbatim>\<open>{x: 1}\<close> is \<open>Obj None [(x, 1)] inh\<close> with \<open>inh\<close>
  the members of \<^verbatim>\<open>Object.prototype\<close>; a typed array is an \<open>Obj\<close> with its indices as own
  keys.

  \<open>ThrowingProxy e\<close> is an object whose reads run code: the proxy
  \<^verbatim>\<open>new Proxy(Object.create(null), {get() { throw e }})\<close>. It is an object, no array and
  no function, it has no own key and \<^verbatim>\<open>in\<close> finds no key in it, and every read of a
  property of it throws \<open>e\<close>. It stands for the objects with a getter or a trap that
  throws; an object with a getter or a trap of another kind is not among the
  values. Values are finite trees: an object that contains itself is not among them.
\<close>

datatype jsval =
    Undefined
  | Null
  | Bool bool
  | Num jsnum
  | Str jsstring
  | BigInt int
  | Sym symbol
  | Arr "jsval list"
  | Obj "nat option" "(jsstring \<times> jsval) list" "(jsstring \<times> jsval) list"
  | ThrowingProxy error

datatype jstype =
  TUndefined | TObject | TBoolean | TNumber | TString | TBigint | TSymbol | TFunction

fun typeof :: "jsval \<Rightarrow> jstype" where
  "typeof Undefined = TUndefined"
| "typeof Null = TObject"
| "typeof (Bool _) = TBoolean"
| "typeof (Num _) = TNumber"
| "typeof (Str _) = TString"
| "typeof (BigInt _) = TBigint"
| "typeof (Sym _) = TSymbol"
| "typeof (Arr _) = TObject"
| "typeof (Obj None _ _) = TObject"
| "typeof (Obj (Some _) _ _) = TFunction"
| "typeof (ThrowingProxy _) = TObject"

fun isArray :: "jsval \<Rightarrow> bool" where
  "isArray (Arr _) = True"
| "isArray _ = False"

text \<open>\<^verbatim>\<open>a[i]\<close> on an array, for an index \<open>i\<close>: \<^verbatim>\<open>undefined\<close> beyond the last element.\<close>

definition at_index :: "jsval list \<Rightarrow> nat \<Rightarrow> jsval" where
  "at_index xs i = (if i < length xs then xs ! i else Undefined)"

text \<open>
  \<^verbatim>\<open>a[key]\<close>, \<^verbatim>\<open>key in a\<close> and \<^verbatim>\<open>Object.keys(a)\<close> on an object \<open>Obj c own inh\<close>. \<open>get_prop\<close>
  is the read of an object whose properties are data; \<open>read_prop\<close> is the read of any
  value that \<^verbatim>\<open>isUnknownIndexSignature\<close> lets through, which throws on the proxy.
\<close>

fun get_prop :: "jsval \<Rightarrow> jsstring \<Rightarrow> jsval" where
  "get_prop (Obj c own inh) key =
     (case map_of own key of
        Some v \<Rightarrow> v
      | None \<Rightarrow> (case map_of inh key of Some v \<Rightarrow> v | None \<Rightarrow> Undefined))"
| "get_prop _ key = Undefined"

fun read_prop :: "jsval \<Rightarrow> jsstring \<Rightarrow> error + jsval" where
  "read_prop (ThrowingProxy e) key = Inl e"
| "read_prop a key = Inr (get_prop a key)"

fun has_prop :: "jsval \<Rightarrow> jsstring \<Rightarrow> bool" where
  "has_prop (Obj c own inh) key = (key \<in> set (map fst own) \<or> key \<in> set (map fst inh))"
| "has_prop _ key = False"

fun object_keys :: "jsval \<Rightarrow> jsstring list" where
  "object_keys (Obj c own inh) = map fst own"
| "object_keys _ = []"

text \<open>
  The members of \<^verbatim>\<open>Object.prototype\<close>, which every object literal and the result of
  \<^verbatim>\<open>JSON.parse\<close> inherit. The methods are functions; \<^verbatim>\<open>__proto__\<close> reads as the
  prototype object itself.
\<close>

definition object_prototype_methods :: "jsstring list" where
  "object_prototype_methods = map ascii
     [''constructor'', ''__defineGetter__'', ''__defineSetter__'', ''hasOwnProperty'',
      ''__lookupGetter__'', ''__lookupSetter__'', ''isPrototypeOf'',
      ''propertyIsEnumerable'', ''toString'', ''valueOf'', ''toLocaleString'']"

definition object_prototype_keys :: "jsstring list" where
  "object_prototype_keys = object_prototype_methods @ [ascii ''__proto__'']"

definition builtin_methods :: "(jsstring \<times> jsval) list" where
  "builtin_methods =
     map (\<lambda>(k, name). (name, Obj (Some k) [] []))
       (zip [0 ..< length object_prototype_methods] object_prototype_methods)"

definition object_prototype :: "(jsstring \<times> jsval) list" where
  "object_prototype =
     builtin_methods @
     [(ascii ''__proto__'', Obj None [] (builtin_methods @ [(ascii ''__proto__'', Null)]))]"

text \<open>The object literal with the given properties.\<close>

definition object_literal :: "(jsstring \<times> jsval) list \<Rightarrow> jsval" where
  "object_literal own = Obj None own object_prototype"

section \<open>Outcomes\<close>

text \<open>
  A call of \<^verbatim>\<open>is\<close> returns a boolean or throws. Calls of \<^verbatim>\<open>is\<close> nest: the guard of a
  \<^verbatim>\<open>Lazy\<close> node compiles the node that the function of the \<^verbatim>\<open>Lazy\<close> node returns and
  calls the guard of that node, which can reach the \<^verbatim>\<open>Lazy\<close> node again, with no
  bound on how often. The call stack of the engine is what bounds the nesting: the
  call that exceeds it ends in a \<^verbatim>\<open>RangeError\<close>, thrown out of \<^verbatim>\<open>is\<close>. The model gives a
  call of \<^verbatim>\<open>is\<close> a budget, and \<open>OutOfFuel\<close> is the outcome of a call that needs more:
  on a stack that holds no more than the budget, the stack overflow.
\<close>

datatype outcome = Returns bool | Throws error | OutOfFuel

text \<open>\<^verbatim>\<open>p && q\<close> and \<^verbatim>\<open>p || q\<close>: the right side is looked at only when the left one asks for it.\<close>

fun js_and :: "outcome \<Rightarrow> outcome \<Rightarrow> outcome" where
  "js_and (Returns True) q = q"
| "js_and p q = p"

fun js_or :: "outcome \<Rightarrow> outcome \<Rightarrow> outcome" where
  "js_or (Returns False) q = q"
| "js_or p q = p"

text \<open>
  \<^verbatim>\<open>xs.every(p)\<close> and \<^verbatim>\<open>xs.some(p)\<close>, given the outcome of \<open>p\<close> at each element: they
  stop at the first element that decides, or that throws.
\<close>

fun js_every :: "outcome list \<Rightarrow> outcome" where
  "js_every [] = Returns True"
| "js_every (p # ps) = js_and p (js_every ps)"

fun js_some :: "outcome list \<Rightarrow> outcome" where
  "js_some [] = Returns False"
| "js_some (p # ps) = js_or p (js_some ps)"

section \<open>Meta\<close>

text \<open>
  The type \<^verbatim>\<open>Meta\<close> is imported; its shape is the one \<^verbatim>\<open>go\<close> switches on. The value of
  an \<^verbatim>\<open>Of\<close> node is compared with \<^verbatim>\<open>===\<close>, which on objects compares identities; the
  values here carry none, so the literal of an \<^verbatim>\<open>Of\<close> node is a primitive. The
  function \<^verbatim>\<open>f\<close> of a \<^verbatim>\<open>Lazy\<close> node is a number \<open>k\<close>: calling it returns the
  \<^verbatim>\<open>Meta\<close> that the host's table \<open>thunk\<close> holds at \<open>k\<close>. A node that refers to itself does
  so through that table. The key of a field is a string. An annotation is any value.
\<close>

datatype literal = LUndefined | LNull | LBool bool | LNum jsnum | LStr jsstring

datatype meta =
    Apply symbol "meta list" "jsval list"
  | String "jsnum option" "jsnum option"
  | Number "jsnum option" "jsnum option"
  | Boolean
  | Of literal
  | Tuple "meta list" "meta option"
  | UnionM "meta list"
  | Struct "(jsstring \<times> meta) list" "meta option"
  | Lazy symbol nat

text \<open>\<^verbatim>\<open>u === value\<close> for the literal of an \<^verbatim>\<open>Of\<close> node.\<close>

fun strict_equals :: "jsval \<Rightarrow> literal \<Rightarrow> bool" where
  "strict_equals Undefined LUndefined = True"
| "strict_equals Null LNull = True"
| "strict_equals (Bool a) (LBool b) = (a = b)"
| "strict_equals (Num x) (LNum y) = num_equals x y"
| "strict_equals (Str s) (LStr t) = (s = t)"
| "strict_equals _ _ = False"

section \<open>Guards\<close>

text \<open>
  A \<^verbatim>\<open>Guard\<close> pairs a \<^verbatim>\<open>meta\<close> with the predicate \<^verbatim>\<open>is\<close>. The \<^verbatim>\<open>meta\<close> is built by the
  module \<^verbatim>\<open>Schema\<close>, which is not among the sources, and no guard reads it; the model
  keeps the predicate.
\<close>

datatype guard = Guard (guard_is: "jsval \<Rightarrow> outcome")

text \<open>
  What the code takes from outside: the function of each \<^verbatim>\<open>Lazy\<close> node, the functions
  found under \<^verbatim>\<open>guardFor\<close> in annotations (function number \<open>k\<close>, called with the
  annotations and the guards, returns a guard or throws), and the conversion to a
  number that \<^verbatim>\<open>>=\<close> and \<^verbatim>\<open><=\<close> apply to a string or an object.
\<close>

record host =
  thunk :: "nat \<Rightarrow> meta"
  call_guardFor :: "nat \<Rightarrow> jsval list \<Rightarrow> guard list \<Rightarrow> error + guard"
  toNumber :: "jsval \<Rightarrow> error + jsnum"

definition make :: "(jsval \<Rightarrow> outcome) \<Rightarrow> guard" where
  "make is_fn = Guard is_fn"

text \<open>
  The left operand of \<^verbatim>\<open>>=\<close> and \<^verbatim>\<open><=\<close> against a number, as a number. A bigint is
  compared by its value, a symbol makes the comparison throw, and so does the proxy,
  which is asked for its \<^verbatim>\<open>Symbol.toPrimitive\<close>.
\<close>

fun to_numeric :: "host \<Rightarrow> jsval \<Rightarrow> error + jsnum" where
  "to_numeric h Undefined = Inr NaN"
| "to_numeric h Null = Inr (Fin 0)"
| "to_numeric h (Bool b) = Inr (Fin (if b then 1 else 0))"
| "to_numeric h (Num x) = Inr x"
| "to_numeric h (BigInt i) = Inr (Fin (of_int i))"
| "to_numeric h (Sym s) = Inl TypeError"
| "to_numeric h (ThrowingProxy e) = Inl e"
| "to_numeric h v = toNumber h v"

definition ge_op :: "host \<Rightarrow> jsval \<Rightarrow> jsnum \<Rightarrow> outcome" where
  "ge_op h v n = (case to_numeric h v of Inl e \<Rightarrow> Throws e | Inr x \<Rightarrow> Returns (js_ge x n))"

definition le_op :: "host \<Rightarrow> jsval \<Rightarrow> jsnum \<Rightarrow> outcome" where
  "le_op h v n = (case to_numeric h v of Inl e \<Rightarrow> Throws e | Inr x \<Rightarrow> Returns (js_le x n))"

text \<open>\<^verbatim>\<open>a.length\<close>: a read of \<^verbatim>\<open>undefined\<close>, of \<^verbatim>\<open>null\<close> or of the proxy throws.\<close>

fun get_length :: "jsval \<Rightarrow> error + jsval" where
  "get_length Undefined = Inl TypeError"
| "get_length Null = Inl TypeError"
| "get_length (Str s) = Inr (Num (Fin (of_nat (length s))))"
| "get_length (Arr xs) = Inr (Num (Fin (of_nat (length xs))))"
| "get_length (ThrowingProxy e) = Inl e"
| "get_length v = Inr (get_prop v (ascii ''length''))"

definition string :: guard where
  "string = make (\<lambda>u. Returns (typeof u = TString))"

definition minLength :: "host \<Rightarrow> jsnum \<Rightarrow> guard \<Rightarrow> guard" where
  "minLength h n self =
     make (\<lambda>a. js_and (guard_is self a)
       (case get_length a of Inl e \<Rightarrow> Throws e | Inr l \<Rightarrow> ge_op h l n))"

definition maxLength :: "host \<Rightarrow> jsnum \<Rightarrow> guard \<Rightarrow> guard" where
  "maxLength h n self =
     make (\<lambda>a. js_and (guard_is self a)
       (case get_length a of Inl e \<Rightarrow> Throws e | Inr l \<Rightarrow> le_op h l n))"

definition number :: guard where
  "number = make (\<lambda>u. Returns (typeof u = TNumber))"

definition minimum :: "host \<Rightarrow> jsnum \<Rightarrow> guard \<Rightarrow> guard" where
  "minimum h n self = make (\<lambda>a. js_and (guard_is self a) (ge_op h a n))"

definition maximum :: "host \<Rightarrow> jsnum \<Rightarrow> guard \<Rightarrow> guard" where
  "maximum h n self = make (\<lambda>a. js_and (guard_is self a) (le_op h a n))"

definition boolean :: guard where
  "boolean = make (\<lambda>u. Returns (typeof u = TBoolean))"

text \<open>
  \<^verbatim>\<open>lazy\<close>: \<^verbatim>\<open>is\<close> asks the guard that \<^verbatim>\<open>get()\<close> returns, and \<^verbatim>\<open>get\<close> is the memoized \<open>f\<close>:
  its first call runs \<open>f\<close> and keeps the guard, every later call returns the guard
  kept. A guard is here its predicate, a function of the value alone, and \<open>f\<close> is a
  function of the model, the same at every call; so the guard kept is \<open>f ()\<close>, and
  that is what the predicate asks. The cell that keeps the guard, and the cache of
  \<^verbatim>\<open>go\<close>, are state: the section on guards as objects has them, with \<open>LazyObj\<close> for
  the guard that \<^verbatim>\<open>lazy\<close> returns. The symbol goes to the schema, which no guard
  reads.
\<close>

definition lazy :: "symbol \<Rightarrow> (unit \<Rightarrow> error + guard) \<Rightarrow> guard" where
  "lazy symbol f =
     make (\<lambda>a. case f () of
                 Inl e \<Rightarrow> Throws e
               | Inr g \<Rightarrow> guard_is g a)"

definition isUnknownIndexSignature :: "jsval \<Rightarrow> bool" where
  "isUnknownIndexSignature u = (typeof u = TObject \<and> u \<noteq> Null \<and> \<not> isArray u)"

text \<open>
  \<^verbatim>\<open>isGuardAnnotation\<close>. Among the values, only an \<open>Obj\<close> can have a property \<^verbatim>\<open>_tag\<close>.
\<close>

definition isGuardAnnotation :: "jsval \<Rightarrow> bool" where
  "isGuardAnnotation u =
     (u \<noteq> Null \<and> typeof u = TObject \<and> has_prop u (ascii ''_tag'') \<and>
      get_prop u (ascii ''_tag'') = Str (ascii ''GuardAnnotation''))"

section \<open>The compiler\<close>

text \<open>
  \<^verbatim>\<open>xs.map(go)\<close> where \<^verbatim>\<open>go\<close> can throw: the first exception ends the whole \<^verbatim>\<open>map\<close>.
\<close>

fun collect :: "(error + 'a) list \<Rightarrow> error + 'a list" where
  "collect [] = Inr []"
| "collect (Inl e # rs) = Inl e"
| "collect (Inr x # rs) = (case collect rs of Inl e \<Rightarrow> Inl e | Inr xs \<Rightarrow> Inr (x # xs))"

text \<open>
  The message of the exception for an \<^verbatim>\<open>Apply\<close> node without a guard annotation;
  \<open>0x22\<close> is the double quote.
\<close>

definition missing_message :: "symbol \<Rightarrow> jsstring" where
  "missing_message symbol =
     ascii ''Missing '' @ [0x22] @ ascii ''GuardAnnotation'' @ [0x22] @ ascii '' for '' @
     (case description symbol of Some d \<Rightarrow> d | None \<Rightarrow> ascii ''undefined'')"

text \<open>
  The call \<^verbatim>\<open>annotations[0].guardFor(meta.annotations, ...guards)\<close>, given the value
  read under \<^verbatim>\<open>guardFor\<close>: what is not a function cannot be called.
\<close>

fun invoke :: "host \<Rightarrow> jsval \<Rightarrow> jsval list \<Rightarrow> guard list \<Rightarrow> error + guard" where
  "invoke h (Obj (Some k) own inh) annotations guards = call_guardFor h k annotations guards"
| "invoke h _ annotations guards = Inl TypeError"

text \<open>The predicate of a \<^verbatim>\<open>Tuple\<close> node; \<^verbatim>\<open>a.slice(n)\<close> drops the first \<open>n\<close> elements.\<close>

definition tuple_is :: "guard list \<Rightarrow> guard option \<Rightarrow> jsval \<Rightarrow> outcome" where
  "tuple_is components restElement a =
     (case a of
        Arr xs \<Rightarrow>
          js_and
            (js_every (map (\<lambda>(guard, i). guard_is guard (at_index xs i))
                           (zip components [0 ..< length components])))
            (case restElement of
               Some rest \<Rightarrow> js_every (map (guard_is rest) (drop (length components) xs))
             | None \<Rightarrow> Returns True)
      | _ \<Rightarrow> Returns False)"

text \<open>The predicate of a \<^verbatim>\<open>Union\<close> node.\<close>

definition union_is :: "guard list \<Rightarrow> jsval \<Rightarrow> outcome" where
  "union_is members a = js_some (map (\<lambda>guard. guard_is guard a) members)"

text \<open>
  The object \<^verbatim>\<open>fields\<close> of a \<^verbatim>\<open>Struct\<close> node starts as \<^verbatim>\<open>{}\<close> and is filled by the
  assignments \<^verbatim>\<open>fields[field.key] = go(field.value)\<close>. Its prototype is
  \<^verbatim>\<open>Object.prototype\<close>, so an assignment to \<^verbatim>\<open>__proto__\<close> creates no property: the guard,
  an object with the properties \<^verbatim>\<open>meta\<close> and \<^verbatim>\<open>is\<close>, becomes the prototype. A second
  assignment to a key replaces the value and leaves the key where it is. The type of
  the values is left open: the keys of the object do not depend on them.
\<close>

datatype 'g fields_obj =
  FieldsObj (entries: "(jsstring \<times> 'g) list") (proto_assigned: bool)

definition empty_fields :: "'g fields_obj" where
  "empty_fields = FieldsObj [] False"

fun assign_field :: "'g fields_obj \<Rightarrow> jsstring \<times> 'g \<Rightarrow> 'g fields_obj" where
  "assign_field (FieldsObj es p) (key, g) =
     (if key = ascii ''__proto__'' then FieldsObj es True
      else FieldsObj (AList.update key g es) p)"

text \<open>
  \<^verbatim>\<open>Object.keys\<close> lists the keys that are array indices first, in ascending order,
  then the others, in the order of their creation.
\<close>

definition is_digit :: "16 word \<Rightarrow> bool" where
  "is_digit c = (0x30 \<le> c \<and> c \<le> 0x39)"

definition index_value :: "jsstring \<Rightarrow> nat" where
  "index_value s = foldl (\<lambda>n c. 10 * n + (unat c - 48)) 0 s"

definition is_array_index :: "jsstring \<Rightarrow> bool" where
  "is_array_index s =
     (s \<noteq> [] \<and> list_all is_digit s \<and> (length s = 1 \<or> hd s \<noteq> 0x30) \<and>
      index_value s < 2 ^ 32 - 1)"

definition own_property_keys :: "jsstring list \<Rightarrow> jsstring list" where
  "own_property_keys ks =
     sort_key index_value (filter is_array_index ks) @
     filter (\<lambda>k. \<not> is_array_index k) ks"

definition fields_keys :: "'g fields_obj \<Rightarrow> jsstring list" where
  "fields_keys fieldsObj = own_property_keys (map fst (entries fieldsObj))"

text \<open>\<^verbatim>\<open>key in fields\<close>: an own key, or one found along the prototype chain.\<close>

definition in_fields :: "jsstring \<Rightarrow> 'g fields_obj \<Rightarrow> bool" where
  "in_fields key fieldsObj =
     (key \<in> set (map fst (entries fieldsObj)) \<or> key \<in> set object_prototype_keys \<or>
      (proto_assigned fieldsObj \<and> key \<in> {ascii ''meta'', ascii ''is''}))"

text \<open>
  \<^verbatim>\<open>guard.is(a[key])\<close>: the read comes first, and what it throws is thrown.
\<close>

definition is_at :: "guard \<Rightarrow> jsval \<Rightarrow> jsstring \<Rightarrow> outcome" where
  "is_at guard a key =
     (case read_prop a key of Inl e \<Rightarrow> Throws e | Inr v \<Rightarrow> guard_is guard v)"

text \<open>\<^verbatim>\<open>fields[key].is(a[key])\<close> for an own key of \<^verbatim>\<open>fields\<close>.\<close>

definition field_is :: "guard fields_obj \<Rightarrow> jsstring \<Rightarrow> jsval \<Rightarrow> outcome" where
  "field_is fieldsObj key a =
     (case map_of (entries fieldsObj) key of
        Some guard \<Rightarrow> is_at guard a key
      | None \<Rightarrow> Throws TypeError)"

text \<open>The predicate of a \<^verbatim>\<open>Struct\<close> node: the test, the two iterations over keys, \<^verbatim>\<open>return true\<close>.\<close>

definition struct_is :: "guard fields_obj \<Rightarrow> guard option \<Rightarrow> jsval \<Rightarrow> outcome" where
  "struct_is fieldsObj oIndexSignature a =
     (if \<not> isUnknownIndexSignature a then Returns False
      else js_and
        (js_every (map (\<lambda>key. field_is fieldsObj key a) (fields_keys fieldsObj)))
        (case oIndexSignature of
           Some indexSignature \<Rightarrow>
             js_every (map (\<lambda>key. if in_fields key fieldsObj then Returns True
                                   else is_at indexSignature a key)
                           (object_keys a))
         | None \<Rightarrow> Returns True))"

text \<open>
  \<^verbatim>\<open>go\<close>, as the function from a node to the predicate of its guard. The budget \<open>n\<close>
  counts the \<^verbatim>\<open>Lazy\<close> nodes that one call of \<^verbatim>\<open>is\<close> may pass through, one inside the
  other. \<^verbatim>\<open>go\<close> is memoized per \<^verbatim>\<open>Meta\<close> node; a call that hits the cache returns the
  guard that \<^verbatim>\<open>go\<close> returned for that node before, whose predicate is the one computed
  below. The cache is in the section on guards as objects.
\<close>

fun go :: "host \<Rightarrow> nat \<Rightarrow> meta \<Rightarrow> error + guard" where
  "go h n (Apply symbol metas annotations) =
     (case filter isGuardAnnotation annotations of
        ann # _ \<Rightarrow>
          (case collect (map (go h n) metas) of
             Inl e \<Rightarrow> Inl e
           | Inr guards \<Rightarrow> invoke h (get_prop ann (ascii ''guardFor'')) annotations guards)
      | [] \<Rightarrow> Inl (Error (missing_message symbol)))"
| "go h n (String minLen maxLen) =
     (let out = string;
          out = (case minLen of Some m \<Rightarrow> minLength h m out | None \<Rightarrow> out);
          out = (case maxLen of Some m \<Rightarrow> maxLength h m out | None \<Rightarrow> out)
      in Inr out)"
| "go h n (Number minim maxim) =
     (let out = number;
          out = (case minim of Some m \<Rightarrow> minimum h m out | None \<Rightarrow> out);
          out = (case maxim of Some m \<Rightarrow> maximum h m out | None \<Rightarrow> out)
      in Inr out)"
| "go h n Boolean = Inr boolean"
| "go h n (Of v) = Inr (make (\<lambda>u. Returns (strict_equals u v)))"
| "go h n (Tuple components restElement) =
     (case collect (map (go h n) components) of
        Inl e \<Rightarrow> Inl e
      | Inr cs \<Rightarrow>
          (case restElement of
             None \<Rightarrow> Inr (make (tuple_is cs None))
           | Some r \<Rightarrow>
               (case go h n r of
                  Inl e \<Rightarrow> Inl e
                | Inr rest \<Rightarrow> Inr (make (tuple_is cs (Some rest))))))"
| "go h n (UnionM members) =
     (case collect (map (go h n) members) of
        Inl e \<Rightarrow> Inl e
      | Inr ms \<Rightarrow> Inr (make (union_is ms)))"
| "go h n (Struct fs indexSignature) =
     (case collect (map (\<lambda>field. case go h n (snd field) of
                                    Inl e \<Rightarrow> Inl e
                                  | Inr g \<Rightarrow> Inr (fst field, g)) fs) of
        Inl e \<Rightarrow> Inl e
      | Inr compiled \<Rightarrow>
          (let fieldsObj = foldl assign_field empty_fields compiled in
           case indexSignature of
             None \<Rightarrow> Inr (make (struct_is fieldsObj None))
           | Some v \<Rightarrow>
               (case go h n v of
                  Inl e \<Rightarrow> Inl e
                | Inr g \<Rightarrow> Inr (make (struct_is fieldsObj (Some g))))))"
| "go h 0 (Lazy symbol k) = Inr (make (\<lambda>a. OutOfFuel))"
| "go h (Suc n) (Lazy symbol k) = Inr (lazy symbol (\<lambda>_. go h n (thunk h k)))"

section \<open>Guards as objects, with their caches\<close>

text \<open>
  The compiler keeps state: \<^verbatim>\<open>go\<close> is \<^verbatim>\<open>S.memoize\<close> of the function that builds the guard
  of a node, and the guard that \<^verbatim>\<open>lazy\<close> returns holds \<^verbatim>\<open>get\<close>, which is \<^verbatim>\<open>S.memoize(f)\<close>.
  This section has the guards as objects in a store, with the two caches, so that
  what is kept, and what is run again, can be stated.

  Modelled from the spec: \<^verbatim>\<open>S.memoize\<close> belongs to the module \<^verbatim>\<open>Schema\<close>, which is not
  among the sources. The spec has it cache the result per argument: the function runs
  once for an argument, and every later call for that argument returns the cached
  result; a call that throws leaves nothing in the cache. The cache of \<^verbatim>\<open>go\<close> is keyed by
  the node. Nodes are values here, so two nodes that are equal are one node.

  A guard is an object at an address. \<open>Plain g\<close> is a guard that holds no other guard
  and no state, given by its predicate: \<^verbatim>\<open>string\<close>, \<^verbatim>\<open>number\<close>, \<^verbatim>\<open>boolean\<close>, a bound on one
  of them, the guard of an \<^verbatim>\<open>Of\<close> node, and what a provider returns. \<open>TupleObj\<close>,
  \<open>UnionObj\<close> and \<open>StructObj\<close> are the guards that \<^verbatim>\<open>go\<close> builds from the guards of the
  children of a node, which they hold by address. \<open>LazyObj symbol k cell\<close> is the guard
  that \<^verbatim>\<open>lazy(symbol, f)\<close> returns, for the function number \<open>k\<close>; \<open>cell\<close> is the cache of
  \<^verbatim>\<open>get\<close>: empty, or the guard that \<open>f\<close> returned.
\<close>

type_synonym addr = nat

datatype guard_obj =
    Plain guard
  | TupleObj "addr list" "addr option"
  | UnionObj "addr list"
  | StructObj "addr fields_obj" "addr option"
  | LazyObj symbol nat "addr option"


text \<open>
  The store: the objects, the cache of \<^verbatim>\<open>go\<close>, and a log, which the code does not
  have and the statements use: the addresses of the guards of \<^verbatim>\<open>lazy\<close> whose \<^verbatim>\<open>get\<close> has
  run its function and kept the guard, in the order in which that happened.
\<close>

datatype store =
  Store (heap: "guard_obj list") (go_cache: "meta \<rightharpoonup> addr") (compiled: "addr list")

text \<open>The object at an address, if there is one.\<close>

definition obj_at :: "store \<Rightarrow> addr \<Rightarrow> guard_obj option" where
  "obj_at st a = (if a < length (heap st) then Some (heap st ! a) else None)"

text \<open>
  \<open>go_body\<close> is the function that \<^verbatim>\<open>go\<close> memoizes, \<open>go_cached\<close> is \<^verbatim>\<open>go\<close>, and \<open>go_cached_all\<close>
  is \<^verbatim>\<open>metas.map(go)\<close>, each from the store it finds to the store it leaves. A call of
  \<^verbatim>\<open>go\<close> that finds the node in the cache returns the guard kept there; another one
  builds the guard, puts it at a new address and keeps the address in the cache,
  unless building it throws. For a \<^verbatim>\<open>Lazy\<close> node the guard is built without a call of
  the function of the node. The children of an \<^verbatim>\<open>Apply\<close> node are compiled into the
  store; the provider, which is code from outside, is handed their predicates, as
  the function \<open>go\<close> of the section before gives them at the budget \<open>n\<close>, and the guard
  it returns is kept as \<open>Plain\<close>.
\<close>

fun go_body :: "host \<Rightarrow> nat \<Rightarrow> meta \<Rightarrow> store \<Rightarrow> (error + guard_obj) \<times> store"
and go_cached :: "host \<Rightarrow> nat \<Rightarrow> meta \<Rightarrow> store \<Rightarrow> (error + addr) \<times> store"
and go_cached_all :: "host \<Rightarrow> nat \<Rightarrow> meta list \<Rightarrow> store \<Rightarrow> (error + addr list) \<times> store"
where
  "go_body h n (Apply symbol metas annotations) st =
     (case filter isGuardAnnotation annotations of
        ann # _ \<Rightarrow>
          (case go_cached_all h n metas st of
             (Inl e, st1) \<Rightarrow> (Inl e, st1)
           | (Inr cs, st1) \<Rightarrow>
               (case collect (map (go h n) metas) of
                  Inl e \<Rightarrow> (Inl e, st1)
                | Inr guards \<Rightarrow>
                    (case invoke h (get_prop ann (ascii ''guardFor'')) annotations guards of
                       Inl e \<Rightarrow> (Inl e, st1)
                     | Inr g \<Rightarrow> (Inr (Plain g), st1))))
      | [] \<Rightarrow> (Inl (Error (missing_message symbol)), st))"
| "go_body h n (Tuple components restElement) st =
     (case go_cached_all h n components st of
        (Inl e, st1) \<Rightarrow> (Inl e, st1)
      | (Inr cs, st1) \<Rightarrow>
          (case restElement of
             None \<Rightarrow> (Inr (TupleObj cs None), st1)
           | Some r \<Rightarrow>
               (case go_cached h n r st1 of
                  (Inl e, st2) \<Rightarrow> (Inl e, st2)
                | (Inr rest, st2) \<Rightarrow> (Inr (TupleObj cs (Some rest)), st2))))"
| "go_body h n (UnionM members) st =
     (case go_cached_all h n members st of
        (Inl e, st1) \<Rightarrow> (Inl e, st1)
      | (Inr ms, st1) \<Rightarrow> (Inr (UnionObj ms), st1))"
| "go_body h n (Struct fs indexSignature) st =
     (case go_cached_all h n (map snd fs) st of
        (Inl e, st1) \<Rightarrow> (Inl e, st1)
      | (Inr gs, st1) \<Rightarrow>
          (let fieldsObj = foldl assign_field empty_fields (zip (map fst fs) gs) in
           case indexSignature of
             None \<Rightarrow> (Inr (StructObj fieldsObj None), st1)
           | Some v \<Rightarrow>
               (case go_cached h n v st1 of
                  (Inl e, st2) \<Rightarrow> (Inl e, st2)
                | (Inr g, st2) \<Rightarrow> (Inr (StructObj fieldsObj (Some g)), st2))))"
| "go_body h n (Lazy symbol k) st = (Inr (LazyObj symbol k None), st)"
| "go_body h n (String minLen maxLen) st =
     (case go h n (String minLen maxLen) of Inl e \<Rightarrow> (Inl e, st) | Inr g \<Rightarrow> (Inr (Plain g), st))"
| "go_body h n (Number minim maxim) st =
     (case go h n (Number minim maxim) of Inl e \<Rightarrow> (Inl e, st) | Inr g \<Rightarrow> (Inr (Plain g), st))"
| "go_body h n Boolean st = (Inr (Plain boolean), st)"
| "go_body h n (Of v) st = (Inr (Plain (make (\<lambda>u. Returns (strict_equals u v)))), st)"
| "go_cached h n m st =
     (case go_cache st m of
        Some a \<Rightarrow> (Inr a, st)
      | None \<Rightarrow>
          (case go_body h n m st of
             (Inl e, st1) \<Rightarrow> (Inl e, st1)
           | (Inr obj, st1) \<Rightarrow>
               (Inr (length (heap st1)),
                Store (heap st1 @ [obj]) ((go_cache st1)(m \<mapsto> length (heap st1))) (compiled st1))))"
| "go_cached_all h n [] st = (Inr [], st)"
| "go_cached_all h n (m # ms) st =
     (case go_cached h n m st of
        (Inl e, st1) \<Rightarrow> (Inl e, st1)
      | (Inr a, st1) \<Rightarrow>
          (case go_cached_all h n ms st1 of
             (Inl e, st2) \<Rightarrow> (Inl e, st2)
           | (Inr as, st2) \<Rightarrow> (Inr (a # as), st2)))"

text \<open>
  \<^verbatim>\<open>every\<close>, \<^verbatim>\<open>some\<close> and \<^verbatim>\<open>&&\<close> over calls that change the store: each call starts from
  the store that the call before has left.
\<close>

fun run_every :: "(store \<Rightarrow> outcome \<times> store) list \<Rightarrow> store \<Rightarrow> outcome \<times> store" where
  "run_every [] st = (Returns True, st)"
| "run_every (c # cs) st =
     (case c st of (p, st1) \<Rightarrow> if p = Returns True then run_every cs st1 else (p, st1))"

fun run_some :: "(store \<Rightarrow> outcome \<times> store) list \<Rightarrow> store \<Rightarrow> outcome \<times> store" where
  "run_some [] st = (Returns False, st)"
| "run_some (c # cs) st =
     (case c st of (p, st1) \<Rightarrow> if p = Returns False then run_some cs st1 else (p, st1))"

definition and_then ::
  "(store \<Rightarrow> outcome \<times> store) \<Rightarrow> (store \<Rightarrow> outcome \<times> store) \<Rightarrow> store \<Rightarrow> outcome \<times> store" where
  "and_then c d st =
     (case c st of (p, st1) \<Rightarrow> if p = Returns True then d st1 else (p, st1))"

text \<open>
  One call of \<^verbatim>\<open>is\<close> on the guard at the address \<open>a\<close>, from the store it finds to the
  store it leaves. The budget \<open>d\<close> is the depth of nested calls of \<^verbatim>\<open>is\<close> that the stack
  holds. The guard of \<^verbatim>\<open>lazy\<close> calls \<^verbatim>\<open>get()\<close>: with a guard in its cell it asks that
  guard; with an empty cell it calls \<^verbatim>\<open>go(meta.f())\<close>, keeps the guard that \<^verbatim>\<open>go\<close> returns
  in the cell, and asks it. A call of \<^verbatim>\<open>go\<close> that throws leaves the cell empty.
\<close>

fun is_cached :: "host \<Rightarrow> nat \<Rightarrow> nat \<Rightarrow> addr \<Rightarrow> jsval \<Rightarrow> store \<Rightarrow> outcome \<times> store" where
  "is_cached h n 0 a v st = (OutOfFuel, st)"
| "is_cached h n (Suc d) a v st =
     (case obj_at st a of
        None \<Rightarrow> (Throws TypeError, st)
      | Some (Plain g) \<Rightarrow> (guard_is g v, st)
      | Some (TupleObj components restElement) \<Rightarrow>
          (case v of
             Arr xs \<Rightarrow>
               and_then
                 (run_every (map (\<lambda>(c, i) st. is_cached h n d c (at_index xs i) st)
                                 (zip components [0 ..< length components])))
                 (case restElement of
                    Some rest \<Rightarrow>
                      run_every (map (\<lambda>x st. is_cached h n d rest x st)
                                     (drop (length components) xs))
                  | None \<Rightarrow> (\<lambda>st. (Returns True, st)))
                 st
           | _ \<Rightarrow> (Returns False, st))
      | Some (UnionObj members) \<Rightarrow>
          run_some (map (\<lambda>c st. is_cached h n d c v st) members) st
      | Some (StructObj fieldsObj oIndexSignature) \<Rightarrow>
          (if \<not> isUnknownIndexSignature v then (Returns False, st)
           else and_then
             (run_every (map (\<lambda>key st.
                  case map_of (entries fieldsObj) key of
                    Some c \<Rightarrow>
                      (case read_prop v key of
                         Inl e \<Rightarrow> (Throws e, st)
                       | Inr x \<Rightarrow> is_cached h n d c x st)
                  | None \<Rightarrow> (Throws TypeError, st))
                (fields_keys fieldsObj)))
             (case oIndexSignature of
                Some indexSignature \<Rightarrow>
                  run_every (map (\<lambda>key st.
                       if in_fields key fieldsObj then (Returns True, st)
                       else (case read_prop v key of
                               Inl e \<Rightarrow> (Throws e, st)
                             | Inr x \<Rightarrow> is_cached h n d indexSignature x st))
                     (object_keys v))
              | None \<Rightarrow> (\<lambda>st. (Returns True, st)))
             st)
      | Some (LazyObj symbol k (Some b)) \<Rightarrow> is_cached h n d b v st
      | Some (LazyObj symbol k None) \<Rightarrow>
          (case go_cached h n (thunk h k) st of
             (Inl e, st1) \<Rightarrow> (Throws e, st1)
           | (Inr b, st1) \<Rightarrow>
               is_cached h n d b v
                 (Store ((heap st1)[a := LazyObj symbol k (Some b)]) (go_cache st1)
                        (compiled st1 @ [a]))))"

section \<open>Auxiliary definitions for the statements\<close>

text \<open>A host with no \<^verbatim>\<open>Lazy\<close> function and no provider, for the examples.\<close>

definition plain_host :: host where
  "plain_host =
     \<lparr>thunk = (\<lambda>k. Boolean),
      call_guardFor = (\<lambda>k annotations guards. Inl TypeError),
      toNumber = (\<lambda>v. Inr NaN)\<rparr>"

text \<open>The object \<^verbatim>\<open>{0: true, length: 1}\<close>, which looks like an array and is none.\<close>

definition array_like :: jsval where
  "array_like = object_literal [(ascii ''0'', Bool True), (ascii ''length'', Num (Fin 1))]"

text \<open>
  A guard annotation whose \<^verbatim>\<open>guardFor\<close> is the function number \<open>k\<close>, and a host where
  every such function returns the guard of the first child.
\<close>

definition guard_annotation :: "nat \<Rightarrow> jsval" where
  "guard_annotation k =
     object_literal
       [(ascii ''_tag'', Str (ascii ''GuardAnnotation'')),
        (ascii ''guardFor'', Obj (Some k) [] [])]"

definition first_child_host :: host where
  "first_child_host =
     \<lparr>thunk = (\<lambda>k. Boolean),
      call_guardFor = (\<lambda>k annotations guards.
         case guards of g # _ \<Rightarrow> Inr g | [] \<Rightarrow> Inl TypeError),
      toNumber = (\<lambda>v. Inr NaN)\<rparr>"

text \<open>The values a guard accepts: those on which \<^verbatim>\<open>is\<close> returns \<^verbatim>\<open>true\<close>.\<close>

definition accepted :: "guard \<Rightarrow> jsval set" where
  "accepted g = {a. guard_is g a = Returns True}"

text \<open>
  Compiling a node and asking the guard about a value, in one step; an exception of
  the compiler counts as thrown.
\<close>

definition ask :: "host \<Rightarrow> nat \<Rightarrow> meta \<Rightarrow> jsval \<Rightarrow> outcome" where
  "ask h n m a = (case go h n m of Inl e \<Rightarrow> Throws e | Inr g \<Rightarrow> guard_is g a)"

text \<open>The same for the property of a value under a key, with the read.\<close>

definition ask_at :: "host \<Rightarrow> nat \<Rightarrow> meta \<Rightarrow> jsval \<Rightarrow> jsstring \<Rightarrow> outcome" where
  "ask_at h n m a key =
     (case read_prop a key of Inl e \<Rightarrow> Throws e | Inr v \<Rightarrow> ask h n m v)"


text \<open>An outcome is quiet when it is no exception.\<close>

definition quiet :: "outcome \<Rightarrow> bool" where
  "quiet p = (\<forall>e. p \<noteq> Throws e)"

text \<open>
  A linked list, as a node that refers to itself: the function of the \<^verbatim>\<open>Lazy\<close> node
  returns \<^verbatim>\<open>Struct{fields: [value: Number, next: Union[Of(null), the Lazy node]]}\<close>. A
  provider of \<open>list_host\<close> returns the first guard it is given, and \<^verbatim>\<open>boolean\<close> if it
  is given none.
\<close>

definition list_symbol :: symbol where
  "list_symbol = Symbol 0 (Some (ascii ''List''))"

definition list_meta :: meta where
  "list_meta = Lazy list_symbol 0"

definition list_host :: host where
  "list_host =
     \<lparr>thunk = (\<lambda>k. Struct [(ascii ''value'', Number None None),
                             (ascii ''next'', UnionM [Of LNull, list_meta])] None),
      call_guardFor = (\<lambda>k annotations guards.
         case guards of g # _ \<Rightarrow> Inr g | [] \<Rightarrow> Inr boolean),
      toNumber = (\<lambda>v. Inr NaN)\<rparr>"

definition list_cell :: "jsval \<Rightarrow> jsval \<Rightarrow> jsval" where
  "list_cell v next = object_literal [(ascii ''value'', v), (ascii ''next'', next)]"

text \<open>\<open>long_list k\<close> is the list of \<open>k + 1\<close> cells, each with the value \<open>0\<close>.\<close>

fun long_list :: "nat \<Rightarrow> jsval" where
  "long_list 0 = list_cell (Num (Fin 0)) Null"
| "long_list (Suc k) = list_cell (Num (Fin 0)) (long_list k)"


text \<open>
  Two hosts for nodes that are not well formed: in the first the \<^verbatim>\<open>Lazy\<close> function
  returns an \<^verbatim>\<open>Apply\<close> node without annotation, in the second it returns the \<^verbatim>\<open>Lazy\<close>
  node itself.
\<close>

definition broken_host :: host where
  "broken_host =
     \<lparr>thunk = (\<lambda>k. Apply (Symbol 2 None) [] []),
      call_guardFor = (\<lambda>k annotations guards. Inl TypeError),
      toNumber = (\<lambda>v. Inr NaN)\<rparr>"

definition loop_host :: host where
  "loop_host =
     \<lparr>thunk = (\<lambda>k. Lazy list_symbol k),
      call_guardFor = (\<lambda>k annotations guards. Inl TypeError),
      toNumber = (\<lambda>v. Inr NaN)\<rparr>"

section \<open>Auxiliary definitions for the store\<close>

text \<open>The store before anything is compiled.\<close>

definition empty_store :: store where
  "empty_store = Store [] Map.empty []"

text \<open>
  What the store holds at an address for a guard of \<^verbatim>\<open>lazy\<close>: the number of its
  function, and its cell.
\<close>

definition lazy_at :: "store \<Rightarrow> addr \<Rightarrow> (nat \<times> addr option) option" where
  "lazy_at st a =
     (case obj_at st a of Some (LazyObj symbol k cell) \<Rightarrow> Some (k, cell) | _ \<Rightarrow> None)"

text \<open>
  A store \<open>st1\<close> is later than \<open>st\<close> when calls of \<^verbatim>\<open>go\<close> and of \<^verbatim>\<open>is\<close>, any number of them
  on any nodes, guards and values, lead from \<open>st\<close> to \<open>st1\<close>.
\<close>

inductive later :: "host \<Rightarrow> nat \<Rightarrow> store \<Rightarrow> store \<Rightarrow> bool" for h :: host and n :: nat where
  later_refl: "later h n st st"
| later_go: "later h n st st1 \<Longrightarrow> go_cached h n m st1 = (r, st2) \<Longrightarrow> later h n st st2"
| later_is: "later h n st st1 \<Longrightarrow> is_cached h n d a v st1 = (p, st2) \<Longrightarrow> later h n st st2"

text \<open>
  What calls preserve. A guard of \<^verbatim>\<open>lazy\<close> is filled when its cell holds a guard. The
  log is in order when no address is in it twice and every address in it is that of
  a filled guard. From \<open>st\<close> to \<open>st1\<close> the store is steady when no object is lost, the
  cache keeps its entries, a filled guard stays as it is, and the log stays in order.
  Compiling lets the store grow: objects are added at the end, and the cache gets
  entries.
\<close>

definition filled :: "store \<Rightarrow> addr \<Rightarrow> bool" where
  "filled st a = (\<exists>symbol k b. obj_at st a = Some (LazyObj symbol k (Some b)))"

definition once :: "store \<Rightarrow> bool" where
  "once st = (distinct (compiled st) \<and> (\<forall>a\<in>set (compiled st). filled st a))"

definition steady :: "store \<Rightarrow> store \<Rightarrow> bool" where
  "steady st st1 =
     (length (heap st) \<le> length (heap st1) \<and>
      (\<forall>m a. go_cache st m = Some a \<longrightarrow> go_cache st1 m = Some a) \<and>
      (\<forall>a. filled st a \<longrightarrow> obj_at st1 a = obj_at st a) \<and>
      (once st \<longrightarrow> once st1))"

definition grows :: "store \<Rightarrow> store \<Rightarrow> bool" where
  "grows st st1 =
     ((\<exists>new. heap st1 = heap st @ new) \<and> compiled st1 = compiled st \<and>
      (\<forall>m a. go_cache st m = Some a \<longrightarrow> go_cache st1 m = Some a))"

text \<open>
  Calls of \<^verbatim>\<open>is\<close> on one guard, one value after the other, each from the store that the
  call before has left.
\<close>

fun is_each :: "host \<Rightarrow> nat \<Rightarrow> nat \<Rightarrow> addr \<Rightarrow> jsval list \<Rightarrow> store \<Rightarrow> outcome list \<times> store" where
  "is_each h n d a [] st = ([], st)"
| "is_each h n d a (v # vs) st =
     (case is_cached h n d a v st of
        (p, st1) \<Rightarrow> (case is_each h n d a vs st1 of (ps, st2) \<Rightarrow> (p # ps, st2)))"

text \<open>
  For the linked list: five values, the lists \<^verbatim>\<open>[1]\<close> and \<^verbatim>\<open>[1, 2]\<close> and three values
  that go wrong in the second cell; the store after \<^verbatim>\<open>go\<close> has compiled the node of the
  list from the empty store; and the store after \<^verbatim>\<open>is\<close> has then been called on the five
  values, on a stack of twelve nested calls.
\<close>

definition list_values :: "jsval list" where
  "list_values =
     [list_cell (Num (Fin 1)) Null,
      list_cell (Num (Fin 1)) (list_cell (Num (Fin 2)) Null),
      list_cell (Num (Fin 1)) (list_cell (Str (ascii ''two'')) Null),
      list_cell (Num (Fin 1)) (list_cell (Num (Fin 2)) Undefined),
      list_cell (Num (Fin 1)) (Num (Fin 2))]"

definition list_store :: store where
  "list_store = snd (go_cached list_host 0 list_meta empty_store)"

definition list_store_used :: store where
  "list_store_used = snd (is_each list_host 0 12 0 list_values list_store)"

section \<open>Well-formed nodes and plain values\<close>











section \<open>Basic facts\<close>

lemma guard_is_make [simp]: "guard_is (make f) = f"
  by (simp add: make_def)

lemma of_char_word_inj: "(of_char x :: 16 word) = of_char y \<longleftrightarrow> x = y"
proof
  assume eq: "(of_char x :: 16 word) = of_char y"
  have "(of_nat (of_char x) :: 16 word) = of_nat (of_char y)"
    using eq by (simp only: of_nat_of_char)
  then have "unat (of_nat (of_char x) :: 16 word) = unat (of_nat (of_char y) :: 16 word)"
    by simp
  moreover have "(of_char c :: nat) < 2 ^ 16" for c
  proof -
    have "(of_char c :: nat) < 256" by (rule nat_of_char_less_256)
    also have "(256 :: nat) < 2 ^ 16" by simp
    finally show ?thesis .
  qed
  ultimately have "(of_char x :: nat) = of_char y"
    by (simp add: unat_of_nat)
  then show "x = y" by simp
qed simp

lemma ascii_eq_iff [simp]: "ascii s = ascii t \<longleftrightarrow> s = t"
proof -
  have "inj (of_char :: char \<Rightarrow> 16 word)"
    by (rule injI) (simp add: of_char_word_inj)
  then show ?thesis by (simp add: ascii_def inj_map_eq_map)
qed

lemma js_and_Returns: "js_and (Returns b) q = (if b then q else Returns False)"
  by (cases b) simp_all

lemma js_or_Returns: "js_or (Returns b) q = (if b then Returns True else q)"
  by (cases b) simp_all

lemma length_ascii [simp]: "length (ascii s) = length s"
  by (simp add: ascii_def)

lemma js_every_True_iff: "js_every ps = Returns True \<longleftrightarrow> (\<forall>p\<in>set ps. p = Returns True)"
proof (induction ps)
  case Nil
  show ?case by simp
next
  case (Cons p ps)
  show ?case
  proof (cases "p = Returns True")
    case True
    with Cons show ?thesis by simp
  next
    case False
    then have "js_and p (js_every ps) = p"
      by (cases p) (auto split: bool.splits)
    with False show ?thesis by simp
  qed
qed

lemma collect_Inr_iff: "collect rs = Inr xs \<longleftrightarrow> rs = map Inr xs"
proof (induction rs arbitrary: xs)
  case Nil
  show ?case by auto
next
  case (Cons r rs)
  show ?case
  proof (cases r)
    case (Inl e)
    then show ?thesis by auto
  next
    case (Inr x)
    show ?thesis
    proof (cases xs)
      case Nil
      with Inr show ?thesis by (simp split: sum.splits)
    next
      case (Cons y ys)
      with Inr Cons.IH [of ys] show ?thesis by (auto split: sum.splits)
    qed
  qed
qed

lemma lazy_is:
  "guard_is (lazy s f) a = (case f () of Inl e \<Rightarrow> Throws e | Inr g \<Rightarrow> guard_is g a)"
  by (simp add: lazy_def)

lemma js_and_True_iff: "js_and p q = Returns True \<longleftrightarrow> p = Returns True \<and> q = Returns True"
  by (cases p) (auto simp: js_and_Returns)

lemma go_Tuple_Inr:
  assumes "go h n (Tuple cs r) = Inr g"
  obtains gs rg where "map (go h n) cs = map Inr gs"
    and "map_option (go h n) r = map_option Inr rg"
    and "g = make (tuple_is gs rg)"
proof -
  from assms obtain gs where gs: "collect (map (go h n) cs) = Inr gs"
    by (auto split: sum.splits)
  then have m: "map (go h n) cs = map Inr gs" by (simp add: collect_Inr_iff)
  show thesis
  proof (cases r)
    case None
    with assms gs have "g = make (tuple_is gs None)" by simp
    with m None show thesis by (intro that [of gs None]) simp_all
  next
    case (Some rm)
    with assms gs obtain rest where "go h n rm = Inr rest" "g = make (tuple_is gs (Some rest))"
      by (auto split: sum.splits)
    with m Some show thesis by (intro that [of gs "Some rest"]) simp_all
  qed
qed

lemma ball_zip_upt:
  "(\<forall>p\<in>set (zip gs [0 ..< length gs]). Q p) \<longleftrightarrow> (\<forall>i<length gs. Q (gs ! i, i))"
proof
  assume l: "\<forall>p\<in>set (zip gs [0 ..< length gs]). Q p"
  show "\<forall>i<length gs. Q (gs ! i, i)"
  proof (intro allI impI)
    fix i assume "i < length gs"
    then have "(gs ! i, i) \<in> set (zip gs [0 ..< length gs])"
      by (simp add: set_zip) (rule exI [of _ i], simp)
    with l show "Q (gs ! i, i)" by blast
  qed
next
  assume "\<forall>i<length gs. Q (gs ! i, i)"
  then show "\<forall>p\<in>set (zip gs [0 ..< length gs]). Q p"
    by (auto simp: set_zip)
qed

lemma components_every_iff:
  "js_every (map (\<lambda>(guard, i). guard_is guard (at_index xs i)) (zip gs [0 ..< length gs])) = Returns True
   \<longleftrightarrow> (\<forall>i<length gs. guard_is (gs ! i) (at_index xs i) = Returns True)"
  by (simp add: js_every_True_iff ball_zip_upt)

lemma tuple_is_True_iff:
  "tuple_is gs rg a = Returns True \<longleftrightarrow>
     (\<exists>xs. a = Arr xs \<and>
        (\<forall>i<length gs. guard_is (gs ! i) (at_index xs i) = Returns True) \<and>
        (case rg of None \<Rightarrow> True
         | Some rest \<Rightarrow> \<forall>x\<in>set (drop (length gs) xs). guard_is rest x = Returns True))"
proof (cases a)
  case (Arr xs)
  then show ?thesis
    unfolding tuple_is_def
    by (simp add: js_and_True_iff components_every_iff split: option.splits)
      (simp add: js_every_True_iff)
qed (simp_all add: tuple_is_def)

lemma tuple_is_non_array: "\<not> isArray a \<Longrightarrow> tuple_is gs rg a = Returns False"
  by (cases a) (simp_all add: tuple_is_def)

lemma string_is [simp]: "guard_is string u = Returns (typeof u = TString)"
  by (simp add: string_def)

lemma number_is [simp]: "guard_is number u = Returns (typeof u = TNumber)"
  by (simp add: number_def)

lemma boolean_is [simp]: "guard_is boolean u = Returns (typeof u = TBoolean)"
  by (simp add: boolean_def)

lemma typeof_TString: "typeof u = TString \<longleftrightarrow> (\<exists>s. u = Str s)"
  by (cases u rule: typeof.cases) simp_all

lemma typeof_TNumber: "typeof u = TNumber \<longleftrightarrow> (\<exists>x. u = Num x)"
  by (cases u rule: typeof.cases) simp_all

lemma typeof_TBoolean: "typeof u = TBoolean \<longleftrightarrow> (\<exists>b. u = Bool b)"
  by (cases u rule: typeof.cases) simp_all

lemma string_bounds_is:
  "guard_is (case maxLen of Some m \<Rightarrow> maxLength h m (case minLen of Some m \<Rightarrow> minLength h m string | None \<Rightarrow> string)
                    | None \<Rightarrow> (case minLen of Some m \<Rightarrow> minLength h m string | None \<Rightarrow> string)) u =
   Returns (\<exists>s. u = Str s \<and>
     (case minLen of None \<Rightarrow> True | Some m \<Rightarrow> js_ge (Fin (of_nat (length s))) m) \<and>
     (case maxLen of None \<Rightarrow> True | Some m \<Rightarrow> js_le (Fin (of_nat (length s))) m))"
proof (cases "typeof u = TString")
  case True
  then obtain s where "u = Str s" by (auto simp: typeof_TString)
  then show ?thesis
    by (simp add: minLength_def maxLength_def ge_op_def le_op_def js_and_Returns
        split: option.splits)
next
  case False
  then have "\<And>s. u \<noteq> Str s" by auto
  with False show ?thesis
    by (simp add: minLength_def maxLength_def split: option.splits)
qed

lemma number_bounds_is:
  "guard_is (case maxim of Some m \<Rightarrow> maximum h m (case minim of Some m \<Rightarrow> minimum h m number | None \<Rightarrow> number)
                    | None \<Rightarrow> (case minim of Some m \<Rightarrow> minimum h m number | None \<Rightarrow> number)) u =
   Returns (\<exists>x. u = Num x \<and>
     (case minim of None \<Rightarrow> True | Some m \<Rightarrow> js_ge x m) \<and>
     (case maxim of None \<Rightarrow> True | Some m \<Rightarrow> js_le x m))"
proof (cases "typeof u = TNumber")
  case True
  then obtain x where "u = Num x" by (auto simp: typeof_TNumber)
  then show ?thesis
    by (simp add: minimum_def maximum_def ge_op_def le_op_def js_and_Returns
        split: option.splits)
next
  case False
  then have "\<And>x. u \<noteq> Num x" by auto
  with False show ?thesis
    by (simp add: minimum_def maximum_def split: option.splits)
qed

lemma js_or_True_iff: "js_or p q = Returns True \<longleftrightarrow> p = Returns True \<or> (p = Returns False \<and> q = Returns True)"
  by (cases p) (auto simp: js_or_Returns)

lemma js_some_True_iff:
  "js_some ps = Returns True \<longleftrightarrow>
     (\<exists>i<length ps. ps ! i = Returns True \<and> (\<forall>j<i. ps ! j = Returns False))"
proof (induction ps)
  case Nil
  show ?case by simp
next
  case (Cons p ps)
  show ?case
  proof
    assume "js_some (p # ps) = Returns True"
    then consider "p = Returns True" | "p = Returns False" "js_some ps = Returns True"
      by (auto simp: js_or_True_iff)
    then show "\<exists>i<length (p # ps). (p # ps) ! i = Returns True \<and> (\<forall>j<i. (p # ps) ! j = Returns False)"
    proof cases
      case 1
      then show ?thesis by (intro exI [of _ 0]) simp
    next
      case 2
      with Cons obtain i where i: "i < length ps" "ps ! i = Returns True" "\<forall>j<i. ps ! j = Returns False"
        by blast
      show ?thesis
      proof (intro exI [of _ "Suc i"] conjI allI impI)
        fix j assume "j < Suc i"
        with 2(1) i(3) show "(p # ps) ! j = Returns False" by (cases j) simp_all
      qed (use i in simp_all)
    qed
  next
    assume "\<exists>i<length (p # ps). (p # ps) ! i = Returns True \<and> (\<forall>j<i. (p # ps) ! j = Returns False)"
    then obtain i where i: "i < length (p # ps)" "(p # ps) ! i = Returns True"
      "\<forall>j<i. (p # ps) ! j = Returns False" by blast
    show "js_some (p # ps) = Returns True"
    proof (cases i)
      case 0
      with i show ?thesis by simp
    next
      case (Suc k)
      with i(3) have p: "p = Returns False" by auto
      from Suc i have "k < length ps" "ps ! k = Returns True" by simp_all
      moreover from Suc i(3) have "\<forall>j<k. ps ! j = Returns False" by auto
      ultimately have "js_some ps = Returns True" using Cons by blast
      with p show ?thesis by simp
    qed
  qed
qed

lemma js_some_booleans:
  "\<forall>x\<in>set xs. \<exists>b. f x = Returns b \<Longrightarrow>
   js_some (map f xs) = Returns (\<exists>x\<in>set xs. f x = Returns True)"
  by (induction xs) (auto simp: js_or_Returns)

lemma collect_map_Inr [simp]: "collect (map Inr xs) = Inr xs"
  by (simp add: collect_Inr_iff)

lemma missing_message_ends:
  "description symbol = Some d \<Longrightarrow> \<exists>p. missing_message symbol = p @ d"
  by (simp add: missing_message_def)

lemma js_le_trans: "js_le a b \<Longrightarrow> js_le b c \<Longrightarrow> js_le a c"
  by (cases a; cases b; cases c) simp_all

lemma js_ge_trans: "js_ge a b \<Longrightarrow> js_ge b c \<Longrightarrow> js_ge a c"
  unfolding js_ge_def by (blast intro: js_le_trans)

lemma minLength_accepted:
  "a \<in> accepted (minLength h n g) \<longleftrightarrow>
     a \<in> accepted g \<and> (\<exists>l x. get_length a = Inr l \<and> to_numeric h l = Inr x \<and> js_ge x n)"
  by (auto simp: accepted_def minLength_def js_and_True_iff ge_op_def split: sum.splits)

section \<open>Asking a compiled node\<close>

lemma go_Lazy_Inr: "\<exists>g. go h n (Lazy symbol k) = Inr g"
  by (cases n) simp_all

lemma ask_Lazy_Suc: "ask h (Suc n) (Lazy symbol k) a = ask h n (thunk h k) a"
  by (simp add: ask_def lazy_is)

lemma ask_Lazy_0: "ask h 0 (Lazy symbol k) a = OutOfFuel"
  by (simp add: ask_def)

lemma ask_compiled: "go h n m = Inr g \<Longrightarrow> guard_is g a = ask h n m a"
  by (simp add: ask_def)

lemma collect_map_ok:
  assumes "\<forall>x\<in>set xs. \<exists>g. f x = Inr g"
  shows "collect (map f xs) = Inr (map (\<lambda>x. projr (f x)) xs)"
proof -
  have "map f xs = map Inr (map (\<lambda>x. projr (f x)) xs)"
    using assms by (auto simp: map_eq_conv)
  then show ?thesis by (simp add: collect_Inr_iff)
qed

lemma ask_Union:
  assumes "\<forall>m\<in>set members. \<exists>g. go h n m = Inr g"
  shows "ask h n (UnionM members) a = js_some (map (\<lambda>m. ask h n m a) members)"
proof -
  let ?gs = "map (\<lambda>m. projr (go h n m)) members"
  have "guard_is (projr (go h n m)) a = ask h n m a" if "m \<in> set members" for m
    using that assms by (auto simp: ask_def)
  then have e: "map (\<lambda>m. guard_is (projr (go h n m)) a) members = map (\<lambda>m. ask h n m a) members"
    by simp
  have "ask h n (UnionM members) a = guard_is (make (union_is ?gs)) a"
    by (simp add: ask_def collect_map_ok [OF assms])
  also have "\<dots> = js_some (map (\<lambda>m. guard_is (projr (go h n m)) a) members)"
    by (simp add: union_is_def comp_def)
  finally show ?thesis by (simp only: e)
qed


lemma update_map_value:
  "AList.update k (f v) (map (map_prod id f) es) = map (map_prod id f) (AList.update k v es)"
  by (induction es) auto

lemma assign_field_map:
  "assign_field (map_fields_obj f fo) (map_prod id f kv) = map_fields_obj f (assign_field fo kv)"
  by (cases fo; cases kv) (simp add: update_map_value)

lemma foldl_assign_field_map:
  "foldl assign_field (map_fields_obj f fo) (map (map_prod id f) kvs) =
     map_fields_obj f (foldl assign_field fo kvs)"
  by (induction kvs arbitrary: fo) (simp_all add: assign_field_map)

lemma fields_keys_map [simp]: "fields_keys (map_fields_obj f fo) = fields_keys fo"
  by (cases fo) (simp add: fields_keys_def comp_def)

lemma in_fields_map [simp]: "in_fields key (map_fields_obj f fo) = in_fields key fo"
  by (cases fo) (simp add: in_fields_def comp_def)

lemma map_of_entries_map:
  "map_of (entries (map_fields_obj f fo)) key = map_option f (map_of (entries fo) key)"
proof (cases fo)
  case (FieldsObj es p)
  have "map_of (map (map_prod id f) es) key = map_option f (map_of es key)"
    by (induction es) auto
  with FieldsObj show ?thesis by simp
qed

lemma set_own_property_keys [simp]: "set (own_property_keys ks) = set ks"
  by (auto simp: own_property_keys_def)

lemma values_update: "snd ` set (AList.update k v es) \<subseteq> insert v (snd ` set es)"
  by (induction es) auto

lemma values_assign_field:
  "snd ` set (entries (assign_field fo kv)) \<subseteq> insert (snd kv) (snd ` set (entries fo))"
proof (cases fo)
  case (FieldsObj es p)
  obtain k v where kv: "kv = (k, v)" by (cases kv)
  show ?thesis
    using values_update [of k v es] by (auto simp: FieldsObj kv)
qed

lemma values_foldl_assign_field:
  "snd ` set (entries (foldl assign_field fo kvs)) \<subseteq> snd ` set (entries fo) \<union> snd ` set kvs"
proof (induction kvs arbitrary: fo)
  case Nil
  show ?case by simp
next
  case (Cons kv kvs)
  from Cons [of "assign_field fo kv"] values_assign_field [of fo kv]
  show ?case by auto
qed

lemma declared_value:
  assumes "map_of (entries (foldl assign_field empty_fields fs)) key = Some m"
  shows "m \<in> snd ` set fs"
proof -
  from assms have "m \<in> snd ` set (entries (foldl assign_field empty_fields fs))"
    by (force dest: map_of_SomeD)
  with values_foldl_assign_field [of empty_fields fs] show ?thesis
    by (auto simp: empty_fields_def)
qed


lemma ask_at_Obj [simp]:
  "ask_at h n m (Obj c own inh) key = ask h n m (get_prop (Obj c own inh) key)"
  by (simp add: ask_at_def)

lemma ask_at_proxy [simp]: "ask_at h n m (ThrowingProxy e) key = Throws e"
  by (simp add: ask_at_def)

lemma ask_Struct:
  assumes "\<forall>m\<in>snd ` set fs. \<exists>g. go h n m = Inr g"
    and "\<forall>m\<in>set_option indexSignature. \<exists>g. go h n m = Inr g"
  shows "ask h n (Struct fs indexSignature) a =
     (let declared = foldl assign_field empty_fields fs in
      if \<not> isUnknownIndexSignature a then Returns False
      else js_and
        (js_every (map (\<lambda>key. case map_of (entries declared) key of
                                  Some m \<Rightarrow> ask_at h n m a key
                                | None \<Rightarrow> Throws TypeError)
                       (fields_keys declared)))
        (case indexSignature of
           Some v \<Rightarrow>
             js_every (map (\<lambda>key. if in_fields key declared then Returns True
                                   else ask_at h n v a key)
                           (object_keys a))
         | None \<Rightarrow> Returns True))"
proof -
  let ?G = "\<lambda>m. projr (go h n m)"
  let ?declared = "foldl assign_field empty_fields fs"
  let ?fields = "map_fields_obj ?G ?declared"
  have "\<forall>field\<in>set fs. \<exists>kg. (case go h n (snd field) of Inl e \<Rightarrow> Inl e
      | Inr g \<Rightarrow> Inr (fst field, g)) = Inr kg"
    using assms(1) by auto
  from collect_map_ok [OF this]
  have "collect (map (\<lambda>field. case go h n (snd field) of Inl e \<Rightarrow> Inl e
      | Inr g \<Rightarrow> Inr (fst field, g)) fs) =
      Inr (map (\<lambda>field. projr (case go h n (snd field) of Inl e \<Rightarrow> Inl e
      | Inr g \<Rightarrow> Inr (fst field, g))) fs)" .
  also have "map (\<lambda>field. projr (case go h n (snd field) of Inl e \<Rightarrow> Inl e
      | Inr g \<Rightarrow> Inr (fst field, g))) fs = map (map_prod id ?G) fs"
    using assms(1) by (auto simp: map_eq_conv)
  finally have c: "collect (map (\<lambda>field. case go h n (snd field) of Inl e \<Rightarrow> Inl e
      | Inr g \<Rightarrow> Inr (fst field, g)) fs) = Inr (map (map_prod id ?G) fs)" .
  have f: "foldl assign_field empty_fields (map (map_prod id ?G) fs) = ?fields"
    using foldl_assign_field_map [of ?G empty_fields fs] by (simp add: empty_fields_def)
  obtain ig where ig: "map_option (go h n) indexSignature = map_option Inr ig"
    and ie: "map_option guard_is ig = map_option (ask h n) indexSignature"
  proof (cases indexSignature)
    case None
    then show thesis by (intro that [of None]) simp_all
  next
    case (Some v)
    with assms(2) obtain g where g: "go h n v = Inr g" by auto
    then have "guard_is g = ask h n v" by (auto simp: ask_def)
    with Some g show thesis by (intro that [of "Some g"]) simp_all
  qed
  have "go h n (Struct fs indexSignature) = Inr (make (struct_is ?fields ig))"
    using ig by (cases indexSignature; cases ig) (simp_all add: c f Let_def)
  then have a1: "ask h n (Struct fs indexSignature) a = struct_is ?fields ig a"
    by (simp add: ask_def)
  have a2: "field_is ?fields key a =
      (case map_of (entries ?declared) key of Some m \<Rightarrow> ask_at h n m a key | None \<Rightarrow> Throws TypeError)"
    for key
  proof (cases "map_of (entries ?declared) key")
    case None
    then show ?thesis by (simp add: field_is_def map_of_entries_map)
  next
    case (Some m)
    then have "m \<in> snd ` set fs" by (rule declared_value)
    with assms(1) have "guard_is (?G m) v = ask h n m v" for v by (auto simp: ask_def)
    with Some show ?thesis
      by (cases "read_prop a key") (simp_all add: field_is_def map_of_entries_map is_at_def ask_at_def)
  qed
  have a3: "(case ig of
           Some indexSignature \<Rightarrow>
             js_every (map (\<lambda>key. if in_fields key ?fields then Returns True
                                   else is_at indexSignature a key)
                           (object_keys a))
         | None \<Rightarrow> Returns True) =
       (case indexSignature of
           Some v \<Rightarrow>
             js_every (map (\<lambda>key. if in_fields key ?declared then Returns True
                                   else ask_at h n v a key)
                           (object_keys a))
         | None \<Rightarrow> Returns True)"
  proof (cases indexSignature)
    case None
    with ig show ?thesis by simp
  next
    case (Some v)
    with ig ie obtain g where g: "ig = Some g" "guard_is g = ask h n v" by auto
    from g(2) have "is_at g a key = ask_at h n v a key" for key
      by (cases "read_prop a key") (simp_all add: is_at_def ask_at_def)
    with Some g(1) show ?thesis by (simp cong: if_cong)
  qed
  show ?thesis
    unfolding a1 struct_is_def Let_def a2 a3 by simp
qed


section \<open>The linked list\<close>

lemma list_keys:
  "\<not> is_array_index (ascii ''value'')" "\<not> is_array_index (ascii ''next'')"
  by (simp_all add: is_array_index_def is_digit_def ascii_def)

lemma list_thunk:
  "thunk list_host k =
     Struct [(ascii ''value'', Number None None), (ascii ''next'', UnionM [Of LNull, list_meta])] None"
  by (simp add: list_host_def)

lemma list_members_compile: "\<forall>m\<in>set [Of LNull, list_meta]. \<exists>g. go list_host n m = Inr g"
  by (simp add: list_meta_def go_Lazy_Inr)

lemma list_fields_compile:
  "\<forall>m\<in>snd ` set [(ascii ''value'', Number None None), (ascii ''next'', UnionM [Of LNull, list_meta])].
     \<exists>g. go list_host n m = Inr g"
proof -
  obtain g where "go list_host n list_meta = Inr g"
    unfolding list_meta_def using go_Lazy_Inr by blast
  then show ?thesis by (simp add: Let_def)
qed

lemma list_cell_not_null [simp]: "list_cell v next \<noteq> Null"
  by (simp add: list_cell_def object_literal_def)

lemma ask_list_next:
  "ask list_host n (UnionM [Of LNull, list_meta]) next =
     js_or (Returns (next = Null)) (ask list_host n list_meta next)"
proof -
  have "ask list_host n (UnionM [Of LNull, list_meta]) next =
      js_or (ask list_host n (Of LNull) next) (js_or (ask list_host n list_meta next) (Returns False))"
    by (simp add: ask_Union [OF list_members_compile])
  also have "ask list_host n (Of LNull) next = Returns (next = Null)"
    by (cases "next") (simp_all add: ask_def)
  also have "js_or (ask list_host n list_meta next) (Returns False) = ask list_host n list_meta next"
    by (cases "ask list_host n list_meta next") (simp_all add: js_or_Returns)
  finally show ?thesis .
qed

lemma ask_list_cell:
  "ask list_host (Suc n) list_meta (list_cell v next) =
     js_and (Returns (typeof v = TNumber))
       (js_or (Returns (next = Null)) (ask list_host n list_meta next))"
proof -
  let ?fs = "[(ascii ''value'', Number None None), (ascii ''next'', UnionM [Of LNull, list_meta])]"
  have o: "isUnknownIndexSignature (list_cell v next)"
    by (simp add: isUnknownIndexSignature_def list_cell_def object_literal_def)
  have v: "ask list_host n (Number None None) v = Returns (typeof v = TNumber)"
    by (simp add: ask_def Let_def)
  have "ask list_host (Suc n) list_meta (list_cell v next) =
      ask list_host n (Struct ?fs None) (list_cell v next)"
    by (simp add: list_meta_def ask_Lazy_Suc list_thunk)
  also have "\<dots> = js_and (js_and (ask list_host n (Number None None) v)
      (js_and (ask list_host n (UnionM [Of LNull, list_meta]) next) (Returns True))) (Returns True)"
    using o
    by (simp add: ask_Struct [OF list_fields_compile] Let_def empty_fields_def fields_keys_def
        own_property_keys_def list_keys)
      (simp add: list_cell_def object_literal_def)
  also have "\<dots> = js_and (Returns (typeof v = TNumber))
       (js_or (Returns (next = Null)) (ask list_host n list_meta next))"
    unfolding v ask_list_next
    by (cases "typeof v = TNumber"; cases "next = Null";
        cases "ask list_host n list_meta next") (simp_all add: js_and_Returns)
  finally show ?thesis .
qed

lemma ask_list_other:
  assumes "\<not> isUnknownIndexSignature a"
  shows "ask list_host (Suc n) list_meta a = Returns False"
proof -
  have "ask list_host (Suc n) list_meta a =
    ask list_host n (Struct [(ascii ''value'', Number None None),
      (ascii ''next'', UnionM [Of LNull, list_meta])] None) a"
    by (simp add: list_meta_def ask_Lazy_Suc list_thunk)
  with assms show ?thesis
    by (simp add: ask_Struct [OF list_fields_compile])
qed

lemma unproductive_node_never_returns: "ask loop_host n (Lazy list_symbol k) a = OutOfFuel"
  by (induction n) (simp_all add: ask_Lazy_0 ask_Lazy_Suc loop_host_def)
section \<open>Outcomes that settle\<close>


























section \<open>Outcomes that are no exception\<close>

lemma quiet_simps [simp]: "quiet (Returns b)" "quiet OutOfFuel" "\<not> quiet (Throws e)"
  by (simp_all add: quiet_def)







section \<open>Structs with an index signature\<close>

text \<open>
  When the guard compiled from a \<^verbatim>\<open>Struct\<close> node accepts: the input is an object, no
  array and not \<^verbatim>\<open>null\<close>; each own key of \<^verbatim>\<open>fields\<close> has its guard accept the property of
  the input at that key; and, with an index signature, each own key of the input is
  found by \<^verbatim>\<open>key in fields\<close> or has its property accepted by the guard of the index
  signature. When the declared keys are distinct and none is \<^verbatim>\<open>__proto__\<close>, the own
  keys of \<^verbatim>\<open>fields\<close> are the declared ones, and \<^verbatim>\<open>key in fields\<close> finds these and the
  names of the members of \<^verbatim>\<open>Object.prototype\<close>.
\<close>

lemma collect_Inr_all:
  assumes "collect (map f xs) = Inr ys"
  shows "\<forall>x\<in>set xs. \<exists>y. f x = Inr y"
proof -
  from assms have "map f xs = map Inr ys" by (simp add: collect_Inr_iff)
  then have "\<forall>i<length xs. f (xs ! i) = Inr (ys ! i)"
    by (metis length_map nth_map)
  then show ?thesis by (metis in_set_conv_nth)
qed

lemma go_Struct_children:
  assumes "go h n (Struct fs indexSignature) = Inr g"
  shows "(\<forall>m\<in>snd ` set fs. \<exists>g. go h n m = Inr g) \<and>
         (\<forall>m\<in>set_option indexSignature. \<exists>g. go h n m = Inr g)"
proof -
  let ?f = "\<lambda>field. case go h n (snd field) of Inl e \<Rightarrow> Inl e | Inr g \<Rightarrow> Inr (fst field, g)"
  from assms obtain compiled where c: "collect (map ?f fs) = Inr compiled"
    by (auto split: sum.splits)
  have "\<exists>g. go h n m = Inr g" if "m \<in> snd ` set fs" for m
  proof -
    from that obtain field where f: "field \<in> set fs" "m = snd field" by auto
    with collect_Inr_all [OF c] obtain kg where "?f field = Inr kg" by blast
    with f(2) show ?thesis by (cases "go h n m") simp_all
  qed
  then have "\<forall>m\<in>snd ` set fs. \<exists>g. go h n m = Inr g" by blast
  moreover from assms c have "\<forall>m\<in>set_option indexSignature. \<exists>g. go h n m = Inr g"
    by (cases indexSignature) (auto simp: Let_def split: sum.splits)
  ultimately show ?thesis by blast
qed

lemma struct_accepts_iff:
  assumes "go h n (Struct fs indexSignature) = Inr g"
  shows "guard_is g a = Returns True \<longleftrightarrow>
     isUnknownIndexSignature a \<and>
     (\<forall>key\<in>set (fields_keys (foldl assign_field empty_fields fs)).
        \<exists>m. map_of (entries (foldl assign_field empty_fields fs)) key = Some m \<and>
            ask_at h n m a key = Returns True) \<and>
     (case indexSignature of
        None \<Rightarrow> True
      | Some v \<Rightarrow>
          \<forall>key\<in>set (object_keys a).
            in_fields key (foldl assign_field empty_fields fs) \<or>
            ask_at h n v a key = Returns True)"
proof -
  from go_Struct_children [OF assms]
  have c: "\<forall>m\<in>snd ` set fs. \<exists>g. go h n m = Inr g"
    and r: "\<forall>m\<in>set_option indexSignature. \<exists>g. go h n m = Inr g" by blast+
  have "guard_is g a = ask h n (Struct fs indexSignature) a"
    using assms by (rule ask_compiled)
  then show ?thesis
    unfolding ask_Struct [OF c r] Let_def
    by (cases indexSignature)
       (auto simp: js_and_True_iff js_every_True_iff split: option.splits if_splits)
qed

lemma entries_foldl_fresh:
  assumes "distinct (map fst es @ map fst kvs)" and "ascii ''__proto__'' \<notin> fst ` set kvs"
  shows "foldl assign_field (FieldsObj es p) kvs = FieldsObj (es @ kvs) p"
  using assms
proof (induction kvs arbitrary: es)
  case Nil
  show ?case by simp
next
  case (Cons kv kvs)
  obtain k v where kv: "kv = (k, v)" by (cases kv)
  from Cons.prems kv have fresh: "k \<notin> fst ` set es" by auto
  have u: "AList.update k v es = es @ [(k, v)]" using fresh
    by (induction es) auto
  from Cons.prems kv have "distinct (map fst (es @ [(k, v)]) @ map fst kvs)"
    and "ascii ''__proto__'' \<notin> fst ` set kvs" and "k \<noteq> ascii ''__proto__''"
    by auto
  with Cons.IH [of "es @ [(k, v)]"] show ?case by (simp add: kv u)
qed

lemma struct_accepts_distinct:
  assumes "go h n (Struct fs indexSignature) = Inr g"
    and "distinct (map fst fs)" and "ascii ''__proto__'' \<notin> fst ` set fs"
  shows "guard_is g a = Returns True \<longleftrightarrow>
     isUnknownIndexSignature a \<and>
     (\<forall>(key, m)\<in>set fs. ask_at h n m a key = Returns True) \<and>
     (case indexSignature of
        None \<Rightarrow> True
      | Some v \<Rightarrow>
          \<forall>key\<in>set (object_keys a).
            key \<in> fst ` set fs \<or> key \<in> set object_prototype_keys \<or>
            ask_at h n v a key = Returns True)"
proof -
  have d: "foldl assign_field empty_fields fs = FieldsObj fs False"
    using entries_foldl_fresh [of "[]" fs False] assms(2,3) by (simp add: empty_fields_def)
  have 1: "(\<forall>key\<in>set (fields_keys (FieldsObj fs False)).
        \<exists>m. map_of (entries (FieldsObj fs False)) key = Some m \<and>
            ask_at h n m a key = Returns True) \<longleftrightarrow>
      (\<forall>(key, m)\<in>set fs. ask_at h n m a key = Returns True)"
  proof (intro iffI ballI)
    fix p assume l: "\<forall>key\<in>set (fields_keys (FieldsObj fs False)).
        \<exists>m. map_of (entries (FieldsObj fs False)) key = Some m \<and>
            ask_at h n m a key = Returns True" and p: "p \<in> set fs"
    obtain key m where km: "p = (key, m)" by (cases p)
    with p assms(2) have "map_of fs key = Some m" by simp
    moreover from p km have "key \<in> set (fields_keys (FieldsObj fs False))"
      by (force simp: fields_keys_def)
    ultimately show "case p of (key, m) \<Rightarrow> ask_at h n m a key = Returns True"
      using l km by auto
  next
    fix key assume r: "\<forall>(key, m)\<in>set fs. ask_at h n m a key = Returns True"
      and "key \<in> set (fields_keys (FieldsObj fs False))"
    then obtain m where "(key, m) \<in> set fs" by (auto simp: fields_keys_def)
    with assms(2) r show "\<exists>m. map_of (entries (FieldsObj fs False)) key = Some m \<and>
            ask_at h n m a key = Returns True"
      by auto
  qed
  have 2: "in_fields key (FieldsObj fs False) \<longleftrightarrow>
      key \<in> fst ` set fs \<or> key \<in> set object_prototype_keys" for key
    by (simp add: in_fields_def)
  show ?thesis
    unfolding struct_accepts_iff [OF assms(1)] d 1 2
    by (cases indexSignature) (simp_all add: disj_assoc)
qed

text \<open>
  Claim C1 has the index signature checked on every own key of the input that is
  not the key of a declared field. The code asks \<^verbatim>\<open>key in fields\<close>, and \<^verbatim>\<open>fields\<close> inherits
  from \<^verbatim>\<open>Object.prototype\<close>: an own key of the input that is named like a member of
  \<^verbatim>\<open>Object.prototype\<close> is passed unchecked. For the node
  \<^verbatim>\<open>Struct{fields: [{key: "x", value: Number}], indexSignature: {value: String}}\<close> the
  guard accepts \<^verbatim>\<open>{x: 1, y: "ok"}\<close> and rejects \<^verbatim>\<open>{x: 1, y: 2}\<close>, as the claim says, and it
  accepts \<^verbatim>\<open>{x: 1, toString: 2}\<close>, where the claim asks for a rejection: \<^verbatim>\<open>toString\<close> is
  an own key of the input, no field is declared under it, and \<^verbatim>\<open>2\<close> is no string.
\<close>

theorem struct_index_signature_passes_inherited_name:
  "\<exists>g. go h n (Struct [(ascii ''x'', Number None None)] (Some (String None None))) = Inr g \<and>
       guard_is g (object_literal [(ascii ''x'', Num (Fin 1)), (ascii ''y'', Str (ascii ''ok''))]) = Returns True \<and>
       guard_is g (object_literal [(ascii ''x'', Num (Fin 1)), (ascii ''y'', Num (Fin 2))]) = Returns False \<and>
       guard_is g (object_literal [(ascii ''x'', Num (Fin 1)), (ascii ''toString'', Num (Fin 2))]) = Returns True"
proof -
  have k: "\<not> is_array_index (ascii ''x'')"
    by (simp add: is_array_index_def is_digit_def ascii_def)
  have i: "in_fields (ascii ''x'') (FieldsObj [(ascii ''x'', number)] False)"
    "\<not> in_fields (ascii ''y'') (FieldsObj [(ascii ''x'', number)] False)"
    "in_fields (ascii ''toString'') (FieldsObj [(ascii ''x'', number)] False)"
    by (simp_all add: in_fields_def object_prototype_keys_def object_prototype_methods_def)
  show ?thesis
    by (simp add: Let_def empty_fields_def struct_is_def fields_keys_def own_property_keys_def
        k i field_is_def is_at_def object_literal_def isUnknownIndexSignature_def)
qed

section \<open>What the store keeps\<close>

lemma steady_refl [simp]: "steady st st"
  by (simp add: steady_def)

lemma steady_trans: "steady st st1 \<Longrightarrow> steady st1 st2 \<Longrightarrow> steady st st2"
  unfolding steady_def filled_def by (auto; metis)

lemma grows_refl [simp]: "grows st st"
  by (simp add: grows_def)

lemma grows_trans: "grows st st1 \<Longrightarrow> grows st1 st2 \<Longrightarrow> grows st st2"
  unfolding grows_def by auto

lemma grows_alloc:
  "go_cache st m = None \<Longrightarrow> grows st st1 \<Longrightarrow>
   grows st (Store (heap st1 @ [obj]) ((go_cache st1)(m \<mapsto> a)) (compiled st1))"
  unfolding grows_def by auto

lemma go_grows:
  "go_body h n m st = (r, st1) \<Longrightarrow> grows st st1"
  "go_cached h n m st = (ra, st1) \<Longrightarrow> grows st st1"
  "go_cached_all h n ms st = (rs, st1) \<Longrightarrow> grows st st1"
proof (induction h n m st and h n m st and h n ms st arbitrary: r st1 and ra st1 and rs st1
    rule: go_body_go_cached_go_cached_all.induct)
  case (1 h n symbol metas annotations st)
  then show ?case
    by (auto split: list.splits prod.splits sum.splits)
next
  case (2 h n components restElement st)
  then show ?case
    by (auto split: prod.splits sum.splits option.splits intro: grows_trans)
next
  case (3 h n members st)
  then show ?case
    by (auto split: prod.splits sum.splits)
next
  case (4 h n fs indexSignature st)
  then show ?case
    by (auto simp: Let_def split: prod.splits sum.splits option.splits intro: grows_trans)
next
  case (10 h n m st)
  then show ?case
    by (auto split: option.splits prod.splits sum.splits intro: grows_alloc)
next
  case (12 h n m ms st)
  then show ?case
    by (auto split: prod.splits sum.splits intro: grows_trans)
qed (auto simp: Let_def split: option.splits)


lemma grows_obj_at: "grows st st1 \<Longrightarrow> obj_at st a = Some obj \<Longrightarrow> obj_at st1 a = Some obj"
  unfolding grows_def obj_at_def by (auto simp: nth_append split: if_splits)

lemma grows_steady:
  assumes "grows st st1"
  shows "steady st st1"
proof -
  have f: "obj_at st1 a = obj_at st a" if "filled st a" for a
    using that grows_obj_at [OF assms] unfolding filled_def by auto
  then have "filled st1 a" if "filled st a" for a
    using that unfolding filled_def by auto
  with assms f show ?thesis
    unfolding steady_def once_def grows_def by auto
qed

lemma fill_steady:
  assumes "obj_at st a = Some (LazyObj symbol k None)"
  shows "steady st (Store ((heap st)[a := LazyObj symbol k (Some b)]) (go_cache st)
                          (compiled st @ [a]))"
proof -
  let ?st = "Store ((heap st)[a := LazyObj symbol k (Some b)]) (go_cache st) (compiled st @ [a])"
  from assms have a: "a < length (heap st)" "\<not> filled st a"
    by (auto simp: obj_at_def filled_def split: if_splits)
  have o: "obj_at ?st a' = obj_at st a'" if "a' \<noteq> a" for a'
    using that by (simp add: obj_at_def)
  have n: "filled ?st a" using a(1) by (simp add: filled_def obj_at_def)
  have "once ?st" if "once st"
  proof -
    from that a(2) have "a \<notin> set (compiled st)" by (auto simp: once_def)
    moreover have "filled ?st a'" if "filled st a'" for a'
      using that o [of a'] a(2) by (cases "a' = a") (auto simp: filled_def)
    ultimately show ?thesis using that n by (auto simp: once_def)
  qed
  moreover have "obj_at ?st a' = obj_at st a'" if "filled st a'" for a'
    using that o [of a'] a(2) by (cases "a' = a") auto
  ultimately show ?thesis by (simp add: steady_def)
qed

lemma run_every_steady:
  assumes "\<And>c st p st1. c \<in> set cs \<Longrightarrow> c st = (p, st1) \<Longrightarrow> steady st st1"
  shows "run_every cs st = (p, st1) \<Longrightarrow> steady st st1"
  using assms
proof (induction cs arbitrary: st)
  case Nil
  then show ?case by simp
next
  case (Cons c cs)
  obtain q st' where c: "c st = (q, st')" by (cases "c st")
  then have s: "steady st st'" by (intro Cons.prems(2) [of c]) simp_all
  show ?case
  proof (cases "q = Returns True")
    case True
    with Cons.prems(1) c have "run_every cs st' = (p, st1)" by simp
    then have "steady st' st1" by (rule Cons.IH) (auto intro: Cons.prems(2))
    with s show ?thesis by (rule steady_trans)
  next
    case False
    with Cons.prems(1) c s show ?thesis by simp
  qed
qed

lemma run_some_steady:
  assumes "\<And>c st p st1. c \<in> set cs \<Longrightarrow> c st = (p, st1) \<Longrightarrow> steady st st1"
  shows "run_some cs st = (p, st1) \<Longrightarrow> steady st st1"
  using assms
proof (induction cs arbitrary: st)
  case Nil
  then show ?case by simp
next
  case (Cons c cs)
  obtain q st' where c: "c st = (q, st')" by (cases "c st")
  then have s: "steady st st'" by (intro Cons.prems(2) [of c]) simp_all
  show ?case
  proof (cases "q = Returns False")
    case True
    with Cons.prems(1) c have "run_some cs st' = (p, st1)" by simp
    then have "steady st' st1" by (rule Cons.IH) (auto intro: Cons.prems(2))
    with s show ?thesis by (rule steady_trans)
  next
    case False
    with Cons.prems(1) c s show ?thesis by simp
  qed
qed

lemma and_then_steady:
  assumes "\<And>st p st1. c st = (p, st1) \<Longrightarrow> steady st st1"
    and "\<And>st p st1. d st = (p, st1) \<Longrightarrow> steady st st1"
  shows "and_then c d st = (p, st1) \<Longrightarrow> steady st st1"
proof -
  assume r: "and_then c d st = (p, st1)"
  obtain q st' where c: "c st = (q, st')" by (cases "c st")
  then have s: "steady st st'" by (rule assms(1))
  show ?thesis
  proof (cases "q = Returns True")
    case True
    with r c have "d st' = (p, st1)" by (simp add: and_then_def)
    then have "steady st' st1" by (rule assms(2))
    with s show ?thesis by (rule steady_trans)
  next
    case False
    with r c s show ?thesis by (simp add: and_then_def)
  qed
qed

lemma is_steady: "is_cached h n d a v st = (p, st1) \<Longrightarrow> steady st st1"
proof (induction d arbitrary: a v st p st1)
  case 0
  then show ?case by simp
next
  case (Suc d)
  note IH = Suc.IH
  show ?case
  proof (cases "obj_at st a")
    case None
    with Suc.prems show ?thesis by simp
  next
    case (Some obj)
    show ?thesis
    proof (cases obj)
      case (Plain g)
      with Some Suc.prems show ?thesis by simp
    next
      case (TupleObj components restElement)
      show ?thesis
      proof (cases v)
        case (Arr xs)
        let ?c = "run_every (map (\<lambda>(c, i) st. is_cached h n d c (at_index xs i) st)
                                 (zip components [0 ..< length components]))"
        let ?d = "case restElement of
                    Some rest \<Rightarrow>
                      run_every (map (\<lambda>x st. is_cached h n d rest x st)
                                     (drop (length components) xs))
                  | None \<Rightarrow> (\<lambda>st. (Returns True, st))"
        have 1: "steady st st1" if "?c st = (p, st1)" for st p st1
          using that by (rule run_every_steady [rotated]) (auto intro: IH)
        have 2: "steady st st1" if "?d st = (p, st1)" for st p st1
        proof (cases restElement)
          case None
          with that show ?thesis by simp
        next
          case (Some rest)
          with that have "run_every (map (\<lambda>x st. is_cached h n d rest x st)
                                     (drop (length components) xs)) st = (p, st1)" by simp
          then show ?thesis by (rule run_every_steady [rotated]) (auto intro: IH)
        qed
        from Suc.prems Some TupleObj Arr have "and_then ?c ?d st = (p, st1)" by simp
        then show ?thesis by (rule and_then_steady [rotated 2]) (erule 1 2)+
      qed (use Suc.prems Some TupleObj in simp_all)
    next
      case (UnionObj members)
      with Suc.prems Some have "run_some (map (\<lambda>c st. is_cached h n d c v st) members) st = (p, st1)"
        by simp
      then show ?thesis by (rule run_some_steady [rotated]) (auto intro: IH)
    next
      case (StructObj fieldsObj oIndexSignature)
      show ?thesis
      proof (cases "isUnknownIndexSignature v")
        case False
        with Suc.prems Some StructObj show ?thesis by simp
      next
        case True
        let ?c = "run_every (map (\<lambda>key st.
                  case map_of (entries fieldsObj) key of
                    Some c \<Rightarrow>
                      (case read_prop v key of
                         Inl e \<Rightarrow> (Throws e, st)
                       | Inr x \<Rightarrow> is_cached h n d c x st)
                  | None \<Rightarrow> (Throws TypeError, st))
                (fields_keys fieldsObj))"
        let ?d = "case oIndexSignature of
                Some indexSignature \<Rightarrow>
                  run_every (map (\<lambda>key st.
                       if in_fields key fieldsObj then (Returns True, st)
                       else (case read_prop v key of
                               Inl e \<Rightarrow> (Throws e, st)
                             | Inr x \<Rightarrow> is_cached h n d indexSignature x st))
                     (object_keys v))
              | None \<Rightarrow> (\<lambda>st. (Returns True, st))"
        have 1: "steady st st1" if "?c st = (p, st1)" for st p st1
          using that by (rule run_every_steady [rotated])
            (auto intro: IH split: option.splits sum.splits)
        have 2: "steady st st1" if "?d st = (p, st1)" for st p st1
        proof (cases oIndexSignature)
          case None
          with that show ?thesis by simp
        next
          case (Some indexSignature)
          with that have "run_every (map (\<lambda>key st.
                       if in_fields key fieldsObj then (Returns True, st)
                       else (case read_prop v key of
                               Inl e \<Rightarrow> (Throws e, st)
                             | Inr x \<Rightarrow> is_cached h n d indexSignature x st))
                     (object_keys v)) st = (p, st1)" by simp
          then show ?thesis by (rule run_every_steady [rotated])
            (auto intro: IH split: if_splits sum.splits)
        qed
        from Suc.prems Some StructObj True have "and_then ?c ?d st = (p, st1)" by simp
        then show ?thesis by (rule and_then_steady [rotated 2]) (erule 1 2)+
      qed
    next
      case (LazyObj symbol k cell)
      show ?thesis
      proof (cases cell)
        case (Some b)
        with Suc.prems \<open>obj_at st a = Some obj\<close> LazyObj show ?thesis by (auto intro: IH)
      next
        case None
        obtain r st' where g: "go_cached h n (thunk h k) st = (r, st')"
          by (cases "go_cached h n (thunk h k) st")
        then have gr: "grows st st'" by (rule go_grows)
        then have s: "steady st st'" by (rule grows_steady)
        show ?thesis
        proof (cases r)
          case (Inl e)
          with Suc.prems \<open>obj_at st a = Some obj\<close> LazyObj None g s show ?thesis by simp
        next
          case (Inr b)
          let ?st = "Store ((heap st')[a := LazyObj symbol k (Some b)]) (go_cache st')
                        (compiled st' @ [a])"
          from gr \<open>obj_at st a = Some obj\<close> LazyObj None
          have "obj_at st' a = Some (LazyObj symbol k None)" by (auto intro: grows_obj_at)
          then have "steady st' ?st" by (rule fill_steady)
          moreover from Suc.prems \<open>obj_at st a = Some obj\<close> LazyObj None g Inr
          have "is_cached h n d b v ?st = (p, st1)" by simp
          then have "steady ?st st1" by (rule IH)
          ultimately show ?thesis using s by (blast intro: steady_trans)
        qed
      qed
    qed
  qed
qed

lemma later_steady: "later h n st st1 \<Longrightarrow> steady st st1"
proof (induction rule: later.induct)
  case (later_refl st)
  show ?case by simp
next
  case (later_go st st1 m r st2)
  from later_go.hyps(2) have "steady st1 st2" by (intro grows_steady go_grows)
  with later_go.IH show ?case by (rule steady_trans)
next
  case (later_is st st1 d a v p st2)
  from later_is.hyps(2) have "steady st1 st2" by (rule is_steady)
  with later_is.IH show ?case by (rule steady_trans)
qed

lemma later_cache:
  assumes "later h n st st1" and "go_cache st m = Some a"
  shows "go_cached h n m st1 = (Inr a, st1)"
proof -
  from assms(1) have "steady st st1" by (rule later_steady)
  with assms(2) have "go_cache st1 m = Some a" by (simp add: steady_def)
  then show ?thesis by simp
qed

lemma lazy_at_iff:
  "lazy_at st a = Some (k, cell) \<longleftrightarrow> (\<exists>symbol. obj_at st a = Some (LazyObj symbol k cell))"
  by (auto simp: lazy_at_def split: option.splits guard_obj.splits)

lemma later_cell:
  assumes "later h n st st1" and "lazy_at st a = Some (k, Some b)"
  shows "lazy_at st1 a = Some (k, Some b)"
proof -
  from assms(1) have "steady st st1" by (rule later_steady)
  moreover from assms(2) have "filled st a" by (auto simp: filled_def lazy_at_iff)
  ultimately have "obj_at st1 a = obj_at st a" by (simp add: steady_def)
  with assms(2) show ?thesis by (simp add: lazy_at_def)
qed

lemma is_cached_filled:
  assumes "lazy_at st a = Some (k, Some b)"
  shows "is_cached h n (Suc d) a v st = is_cached h n d b v st"
  using assms by (auto simp: lazy_at_iff)

lemma is_cached_throws:
  assumes "lazy_at st a = Some (k, None)" and "go_cached h n (thunk h k) st = (Inl e, st1)"
  shows "is_cached h n (Suc d) a v st = (Throws e, st1)"
  using assms by (auto simp: lazy_at_iff)

lemma later_once:
  assumes "later h n empty_store st"
  shows "distinct (compiled st)"
proof -
  from assms have "steady empty_store st" by (rule later_steady)
  moreover have "once empty_store" by (simp add: once_def empty_store_def)
  ultimately show ?thesis by (simp add: steady_def once_def)
qed

lemma is_each_later: "later h n st st0 \<Longrightarrow> later h n st (snd (is_each h n d a vs st0))"
proof (induction vs arbitrary: st0)
  case Nil
  then show ?case by simp
next
  case (Cons v vs)
  obtain p st1 where p: "is_cached h n d a v st0 = (p, st1)" by (cases "is_cached h n d a v st0")
  with Cons.prems have "later h n st st1" by (rule later_is)
  then have "later h n st (snd (is_each h n d a vs st1))" by (rule Cons.IH)
  with p show ?case by (auto split: prod.splits)
qed

lemma list_store_later: "later list_host 0 empty_store list_store"
proof -
  obtain r where "go_cached list_host 0 list_meta empty_store = (r, list_store)"
    unfolding list_store_def by (cases "go_cached list_host 0 list_meta empty_store") simp
  with later_refl show ?thesis by (rule later_go)
qed

lemma list_store_used_later: "later list_host 0 list_store list_store_used"
  unfolding list_store_used_def using later_refl by (rule is_each_later)

lemma list_run_all:
  "(case is_each list_host 0 12 0 list_values list_store of
      (ps, st) \<Rightarrow>
        ps = [Returns True, Returns True, Returns False, Returns False, Returns False] \<and>
        compiled st = [0] \<and> lazy_at st 0 = Some (0, Some 4))"
  by code_simp

lemma list_run:
  "fst (is_each list_host 0 12 0 list_values list_store) =
     [Returns True, Returns True, Returns False, Returns False, Returns False]"
  "compiled list_store_used = [0]"
  "lazy_at list_store_used 0 = Some (0, Some 4)"
  using list_run_all unfolding list_store_used_def
  by (cases "is_each list_host 0 12 0 list_values list_store"; simp)+

lemma list_compiled:
  "fst (go_cached list_host 0 list_meta empty_store) = Inr 0"
  "go_cache list_store list_meta = Some 0"
  by (simp_all add: list_store_def list_meta_def empty_store_def)

section \<open>Tuples with a rest element\<close>

text \<open>
  Claim C2. The guard compiled from a \<^verbatim>\<open>Tuple\<close> node with a rest element accepts an
  input exactly when it is an array, the guard of each component accepts the element
  at its index, and the guard of the rest element accepts every element beyond the
  components. For \<^verbatim>\<open>Tuple{components: [String, Number], restElement: Boolean}\<close>:
  \<^verbatim>\<open>["a", 1, true, false]\<close> is accepted, \<^verbatim>\<open>["a", 1, 2]\<close> and \<^verbatim>\<open>["a"]\<close> are rejected.
\<close>

theorem tuple_with_rest_element:
  "(map (go h n) components = map Inr cs \<and> go h n r = Inr rest \<longrightarrow>
      (\<exists>g. go h n (Tuple components (Some r)) = Inr g \<and>
         (\<forall>a. guard_is g a = Returns True \<longleftrightarrow>
            (\<exists>xs. a = Arr xs \<and>
               (\<forall>i<length cs. guard_is (cs ! i) (at_index xs i) = Returns True) \<and>
               (\<forall>x\<in>set (drop (length cs) xs). guard_is rest x = Returns True))))) \<and>
   (\<exists>g. go h n (Tuple [String None None, Number None None] (Some Boolean)) = Inr g \<and>
      guard_is g (Arr [Str (ascii ''a''), Num (Fin 1), Bool True, Bool False]) = Returns True \<and>
      guard_is g (Arr [Str (ascii ''a''), Num (Fin 1), Num (Fin 2)]) = Returns False \<and>
      guard_is g (Arr [Str (ascii ''a'')]) = Returns False)"
proof (intro conjI impI)
  assume "map (go h n) components = map Inr cs \<and> go h n r = Inr rest"
  then have "go h n (Tuple components (Some r)) = Inr (make (tuple_is cs (Some rest)))"
    by simp
  then show "\<exists>g. go h n (Tuple components (Some r)) = Inr g \<and>
         (\<forall>a. guard_is g a = Returns True \<longleftrightarrow>
            (\<exists>xs. a = Arr xs \<and>
               (\<forall>i<length cs. guard_is (cs ! i) (at_index xs i) = Returns True) \<and>
               (\<forall>x\<in>set (drop (length cs) xs). guard_is rest x = Returns True)))"
    by (simp add: tuple_is_True_iff)
next
  show "\<exists>g. go h n (Tuple [String None None, Number None None] (Some Boolean)) = Inr g \<and>
      guard_is g (Arr [Str (ascii ''a''), Num (Fin 1), Bool True, Bool False]) = Returns True \<and>
      guard_is g (Arr [Str (ascii ''a''), Num (Fin 1), Num (Fin 2)]) = Returns False \<and>
      guard_is g (Arr [Str (ascii ''a'')]) = Returns False"
    by (simp add: tuple_is_def at_index_def)
qed

theorem tuple_with_rest_element_witness:
  "\<exists>g. go plain_host 0 (Tuple [String None None, Number None None] (Some Boolean)) = Inr g \<and>
       guard_is g (Arr [Str (ascii ''a''), Num (Fin 1), Bool True, Bool False]) = Returns True \<and>
       guard_is g (Arr [Str (ascii ''a''), Num (Fin 1), Null]) \<noteq> Returns True \<and>
       guard_is g (Arr [Str (ascii ''a'')]) \<noteq> Returns True \<and>
       guard_is g (Str (ascii ''a'')) \<noteq> Returns True"
proof -
  let ?components = "[String None None, Number None None]"
  let ?cs = "[string, number]"
  have "map (go plain_host 0) ?components = map Inr ?cs \<and> go plain_host 0 Boolean = Inr boolean"
    by simp
  with tuple_with_rest_element [of plain_host 0 ?components ?cs Boolean boolean]
  obtain g where c: "go plain_host 0 (Tuple ?components (Some Boolean)) = Inr g"
    and s: "\<forall>a. guard_is g a = Returns True \<longleftrightarrow>
            (\<exists>xs. a = Arr xs \<and>
               (\<forall>i<length ?cs. guard_is (?cs ! i) (at_index xs i) = Returns True) \<and>
               (\<forall>x\<in>set (drop (length ?cs) xs). guard_is boolean x = Returns True))"
    by blast
  have "guard_is g (Arr [Str (ascii ''a''), Num (Fin 1), Bool True, Bool False]) = Returns True"
    "guard_is g (Arr [Str (ascii ''a''), Num (Fin 1), Null]) \<noteq> Returns True"
    "guard_is g (Arr [Str (ascii ''a'')]) \<noteq> Returns True"
    "guard_is g (Str (ascii ''a'')) \<noteq> Returns True"
    by (simp_all add: s at_index_def less_Suc_eq all_conj_distrib)
  with c show ?thesis by blast
qed

section \<open>Unions\<close>

text \<open>
  Claim C3. The guard compiled from a \<^verbatim>\<open>Union\<close> node answers as
  \<^verbatim>\<open>members.some(m => m.is(x))\<close> does, \<^verbatim>\<open>members\<close> being the guards compiled from the
  member nodes, in the order of their declaration: it returns \<^verbatim>\<open>true\<close> exactly when
  some member does and every member before it has returned \<^verbatim>\<open>false\<close>, which is the
  disjunction of the members' verdicts when each of them returns one. A union
  without members accepts nothing.
\<close>

theorem union_is_some_member:
  "(map (go h n) members = map Inr ms \<longrightarrow>
      (\<exists>g. go h n (UnionM members) = Inr g \<and>
         (\<forall>x. guard_is g x = js_some (map (\<lambda>m. guard_is m x) ms)) \<and>
         (\<forall>x. guard_is g x = Returns True \<longleftrightarrow>
              (\<exists>i<length ms. guard_is (ms ! i) x = Returns True \<and>
                 (\<forall>j<i. guard_is (ms ! j) x = Returns False))) \<and>
         (\<forall>x. (\<forall>m\<in>set ms. \<exists>b. guard_is m x = Returns b) \<longrightarrow>
              guard_is g x = Returns (\<exists>m\<in>set ms. guard_is m x = Returns True)))) \<and>
   (\<exists>g. go h n (UnionM []) = Inr g \<and> (\<forall>x. guard_is g x = Returns False))"
proof (intro conjI impI)
  assume m: "map (go h n) members = map Inr ms"
  let ?g = "make (union_is ms)"
  have c: "go h n (UnionM members) = Inr ?g" by (simp add: m)
  have a: "guard_is ?g x = js_some (map (\<lambda>m. guard_is m x) ms)" for x
    by (simp add: union_is_def)
  have b: "guard_is ?g x = Returns True \<longleftrightarrow>
      (\<exists>i<length ms. guard_is (ms ! i) x = Returns True \<and> (\<forall>j<i. guard_is (ms ! j) x = Returns False))"
    for x
    unfolding a js_some_True_iff by auto
  have d: "guard_is ?g x = Returns (\<exists>m\<in>set ms. guard_is m x = Returns True)"
    if "\<forall>m\<in>set ms. \<exists>b. guard_is m x = Returns b" for x
    unfolding a using that by (rule js_some_booleans)
  from c a b d show "\<exists>g. go h n (UnionM members) = Inr g \<and>
         (\<forall>x. guard_is g x = js_some (map (\<lambda>m. guard_is m x) ms)) \<and>
         (\<forall>x. guard_is g x = Returns True \<longleftrightarrow>
              (\<exists>i<length ms. guard_is (ms ! i) x = Returns True \<and>
                 (\<forall>j<i. guard_is (ms ! j) x = Returns False))) \<and>
         (\<forall>x. (\<forall>m\<in>set ms. \<exists>b. guard_is m x = Returns b) \<longrightarrow>
              guard_is g x = Returns (\<exists>m\<in>set ms. guard_is m x = Returns True))"
    by blast
next
  show "\<exists>g. go h n (UnionM []) = Inr g \<and> (\<forall>x. guard_is g x = Returns False)"
    by (simp add: union_is_def)
qed

theorem union_is_some_member_witness:
  "\<exists>g. go plain_host 0 (UnionM [String None None, Number None None]) = Inr g \<and>
       guard_is g (Num (Fin 3)) = Returns True \<and>
       guard_is g (Str (ascii ''a'')) = Returns True \<and>
       guard_is g Null = Returns False"
proof -
  let ?members = "[String None None, Number None None]"
  let ?ms = "[string, number]"
  have m: "map (go plain_host 0) ?members = map Inr ?ms" by simp
  from union_is_some_member [of plain_host 0 ?members ?ms] m
  obtain g where c: "go plain_host 0 (UnionM ?members) = Inr g"
    and s: "\<forall>x. guard_is g x = js_some (map (\<lambda>m. guard_is m x) ?ms)"
    by blast
  from s have "guard_is g (Num (Fin 3)) = Returns True"
    "guard_is g (Str (ascii ''a'')) = Returns True" "guard_is g Null = Returns False"
    by simp_all
  with c show ?thesis by blast
qed

section \<open>Apply nodes\<close>

text \<open>
  Claim C4. Compiling an \<^verbatim>\<open>Apply\<close> node none of whose annotations is a guard
  annotation, an empty list of annotations among them, throws an \<^verbatim>\<open>Error\<close> whose
  message ends with the description of the node's symbol, and returns no guard. When
  there is a guard annotation, the \<^verbatim>\<open>guardFor\<close> of the first one is called with all the
  annotations of the node and the guards compiled from the children, in order, and
  what it returns is returned.
\<close>

theorem apply_guard_annotation:
  "(filter isGuardAnnotation annotations = [] \<longrightarrow>
      go h n (Apply symbol metas annotations) = Inl (Error (missing_message symbol)) \<and>
      (\<forall>g. go h n (Apply symbol metas annotations) \<noteq> Inr g) \<and>
      (\<forall>d. description symbol = Some d \<longrightarrow> (\<exists>p. missing_message symbol = p @ d))) \<and>
   go h n (Apply symbol metas []) = Inl (Error (missing_message symbol)) \<and>
   (filter isGuardAnnotation annotations = ann # others \<and>
    get_prop ann (ascii ''guardFor'') = Obj (Some k) own inh \<and>
    map (go h n) metas = map Inr guards \<longrightarrow>
      go h n (Apply symbol metas annotations) = call_guardFor h k annotations guards)"
proof (intro conjI impI)
  assume none: "filter isGuardAnnotation annotations = []"
  then show e: "go h n (Apply symbol metas annotations) = Inl (Error (missing_message symbol))"
    by simp
  then show "\<forall>g. go h n (Apply symbol metas annotations) \<noteq> Inr g" by simp
  show "\<forall>d. description symbol = Some d \<longrightarrow> (\<exists>p. missing_message symbol = p @ d)"
    by (simp add: missing_message_ends)
next
  show "go h n (Apply symbol metas []) = Inl (Error (missing_message symbol))" by simp
next
  assume "filter isGuardAnnotation annotations = ann # others \<and>
    get_prop ann (ascii ''guardFor'') = Obj (Some k) own inh \<and>
    map (go h n) metas = map Inr guards"
  then show "go h n (Apply symbol metas annotations) = call_guardFor h k annotations guards"
    by simp
qed

theorem apply_guard_annotation_witness:
  "go first_child_host 0 (Apply (Symbol 0 (Some (ascii ''Id''))) [Boolean] [Null]) =
     Inl (Error (ascii ''Missing '' @ [0x22] @ ascii ''GuardAnnotation'' @ [0x22] @ ascii '' for Id'')) \<and>
   go first_child_host 0 (Apply (Symbol 0 (Some (ascii ''Id''))) [Boolean]
      [Null, guard_annotation 7, guard_annotation 8]) = Inr boolean"
proof -
  let ?s = "Symbol 0 (Some (ascii ''Id''))"
  let ?anns = "[Null, guard_annotation 7, guard_annotation 8]"
  have f0: "filter isGuardAnnotation [Null] = []" by (simp add: isGuardAnnotation_def)
  have f1: "filter isGuardAnnotation ?anns = guard_annotation 7 # [guard_annotation 8]"
    by (simp add: isGuardAnnotation_def guard_annotation_def object_literal_def)
  have p: "get_prop (guard_annotation 7) (ascii ''guardFor'') = Obj (Some 7) [] []"
    by (simp add: guard_annotation_def object_literal_def)
  have m: "map (go first_child_host 0) [Boolean] = map Inr [boolean]" by simp
  have "go first_child_host 0 (Apply ?s [Boolean] [Null]) = Inl (Error (missing_message ?s))"
    using apply_guard_annotation [of "[Null]" first_child_host 0 ?s "[Boolean]"] f0 by blast
  moreover have "go first_child_host 0 (Apply ?s [Boolean] ?anns) =
      call_guardFor first_child_host 7 ?anns [boolean]"
    using apply_guard_annotation [of ?anns first_child_host 0 ?s "[Boolean]" "guard_annotation 7"
        "[guard_annotation 8]" 7 "[]" "[]" "[boolean]"] f1 p m by blast
  ultimately show ?thesis
    by (simp add: missing_message_def first_child_host_def ascii_def)
qed

section \<open>Primitive nodes\<close>

text \<open>
  Claim C5. The guard compiled from a \<^verbatim>\<open>String\<close>, \<^verbatim>\<open>Number\<close> or \<^verbatim>\<open>Boolean\<close> node returns
  \<^verbatim>\<open>true\<close> on the values of that runtime type and \<^verbatim>\<open>false\<close> on every other value,
  \<^verbatim>\<open>null\<close> and \<^verbatim>\<open>undefined\<close> among them; where \<^verbatim>\<open>minLength\<close> or \<^verbatim>\<open>maxLength\<close>, \<^verbatim>\<open>minimum\<close> or
  \<^verbatim>\<open>maximum\<close> is present, the inclusive bound on the length, or on the value, is a
  further conjunct.
\<close>

theorem primitive_guards:
  "(\<exists>g. go h n (String minLen maxLen) = Inr g \<and>
      (\<forall>u. guard_is g u = Returns (\<exists>s. u = Str s \<and>
         (case minLen of None \<Rightarrow> True | Some m \<Rightarrow> js_ge (Fin (of_nat (length s))) m) \<and>
         (case maxLen of None \<Rightarrow> True | Some m \<Rightarrow> js_le (Fin (of_nat (length s))) m)))) \<and>
   (\<exists>g. go h n (Number minim maxim) = Inr g \<and>
      (\<forall>u. guard_is g u = Returns (\<exists>x. u = Num x \<and>
         (case minim of None \<Rightarrow> True | Some m \<Rightarrow> js_ge x m) \<and>
         (case maxim of None \<Rightarrow> True | Some m \<Rightarrow> js_le x m)))) \<and>
   (\<exists>g. go h n Boolean = Inr g \<and> (\<forall>u. guard_is g u = Returns (\<exists>b. u = Bool b)))"
proof (intro conjI)
  show "\<exists>g. go h n (String minLen maxLen) = Inr g \<and>
      (\<forall>u. guard_is g u = Returns (\<exists>s. u = Str s \<and>
         (case minLen of None \<Rightarrow> True | Some m \<Rightarrow> js_ge (Fin (of_nat (length s))) m) \<and>
         (case maxLen of None \<Rightarrow> True | Some m \<Rightarrow> js_le (Fin (of_nat (length s))) m)))"
    using string_bounds_is [where maxLen=maxLen and minLen=minLen and h=h] by (simp add: Let_def)
  show "\<exists>g. go h n (Number minim maxim) = Inr g \<and>
      (\<forall>u. guard_is g u = Returns (\<exists>x. u = Num x \<and>
         (case minim of None \<Rightarrow> True | Some m \<Rightarrow> js_ge x m) \<and>
         (case maxim of None \<Rightarrow> True | Some m \<Rightarrow> js_le x m)))"
    using number_bounds_is [where maxim=maxim and minim=minim and h=h] by (simp add: Let_def)
  show "\<exists>g. go h n Boolean = Inr g \<and> (\<forall>u. guard_is g u = Returns (\<exists>b. u = Bool b))"
    by (simp add: typeof_TBoolean)
qed

section \<open>Recursive nodes\<close>

lemma go_cached_Lazy:
  assumes "go_cache st (Lazy symbol k) = None"
  shows "go_cached h n (Lazy symbol k) st =
      (Inr (length (heap st)),
       Store (heap st @ [LazyObj symbol k None])
             ((go_cache st)(Lazy symbol k \<mapsto> length (heap st))) (compiled st))"
  using assms by simp

lemma list_verdicts:
  assumes "3 \<le> n"
  shows "\<exists>g. go list_host n list_meta = Inr g \<and>
     map (guard_is g) list_values =
       [Returns True, Returns True, Returns False, Returns False, Returns False]"
proof -
  from assms obtain m where n: "n = Suc (Suc (Suc m))"
    by (metis Suc_le_D numeral_3_eq_3 Suc_le_mono)
  obtain g where g: "go list_host n list_meta = Inr g"
    unfolding list_meta_def using go_Lazy_Inr by blast
  have u: "\<not> isUnknownIndexSignature Undefined" "\<not> isUnknownIndexSignature (Num (Fin 2))"
    by (simp_all add: isUnknownIndexSignature_def)
  have "map (ask list_host n list_meta) list_values =
       [Returns True, Returns True, Returns False, Returns False, Returns False]"
    unfolding n list_values_def
    by (simp add: ask_list_cell ask_list_other [OF u(1)] ask_list_other [OF u(2)])
  moreover from g have "guard_is g = ask list_host n list_meta"
    by (simp add: ask_def fun_eq_iff)
  ultimately show ?thesis using g by simp
qed

text \<open>
  Claim C6. Compiling a \<^verbatim>\<open>Lazy\<close> node that is not in the cache of \<^verbatim>\<open>go\<close> returns at once:
  the store gets one object, the guard of \<^verbatim>\<open>lazy\<close> with an empty cell, and the cache one
  entry, and the function of the node is not called, whatever it would return, the
  node itself included. A node that is in the cache compiles to the guard kept
  there, in every later store: for one node, one guard. The node that the function
  returns is compiled at the first call of \<^verbatim>\<open>is\<close>, so that an exception of that
  compilation is thrown there. A guard kept in the cell of a guard of \<^verbatim>\<open>lazy\<close> stays
  there in every later store, and \<^verbatim>\<open>is\<close> asks that guard and compiles nothing. From
  the empty store on, no guard of \<^verbatim>\<open>lazy\<close> compiles its node twice. For the linked
  list, whose \<^verbatim>\<open>Lazy\<close> node refers to itself through a \<^verbatim>\<open>Struct\<close>: \<^verbatim>\<open>go\<close> returns the guard at
  address \<open>0\<close>; called on the five values, with a stack of twelve nested calls, \<^verbatim>\<open>is\<close>
  accepts the lists of one and of two cells and rejects the values that go wrong in
  the second cell; after the five calls the log holds the address \<open>0\<close> once, so the
  node was compiled once for all the cells the calls went through. The predicate of
  the section on the compiler gives the same five verdicts, at every budget of three
  nested \<^verbatim>\<open>Lazy\<close> nodes or more.
\<close>

theorem recursive_node_compiles_and_validates:
  "(go_cache st (Lazy symbol k) = None \<longrightarrow>
      go_cached h n (Lazy symbol k) st =
        (Inr (length (heap st)),
         Store (heap st @ [LazyObj symbol k None])
               ((go_cache st)(Lazy symbol k \<mapsto> length (heap st))) (compiled st))) \<and>
   (later h n st st1 \<and> go_cache st m = Some a \<longrightarrow> go_cached h n m st1 = (Inr a, st1)) \<and>
   (lazy_at st a = Some (k, None) \<and> go_cached h n (thunk h k) st = (Inl e, st1) \<longrightarrow>
      is_cached h n (Suc d) a v st = (Throws e, st1)) \<and>
   (later h n st st1 \<and> lazy_at st a = Some (k, Some b) \<longrightarrow>
      lazy_at st1 a = Some (k, Some b) \<and>
      is_cached h n (Suc d) a v st1 = is_cached h n d b v st1) \<and>
   (later h n empty_store st \<longrightarrow> distinct (compiled st)) \<and>
   fst (go_cached list_host 0 list_meta empty_store) = Inr 0 \<and>
   fst (is_each list_host 0 12 0 list_values list_store) =
     [Returns True, Returns True, Returns False, Returns False, Returns False] \<and>
   compiled list_store_used = [0] \<and>
   (3 \<le> n' \<longrightarrow>
      (\<exists>g. go list_host n' list_meta = Inr g \<and>
         map (guard_is g) list_values =
           [Returns True, Returns True, Returns False, Returns False, Returns False]))"
proof (intro conjI impI)
  assume "go_cache st (Lazy symbol k) = None"
  then show "go_cached h n (Lazy symbol k) st =
        (Inr (length (heap st)),
         Store (heap st @ [LazyObj symbol k None])
               ((go_cache st)(Lazy symbol k \<mapsto> length (heap st))) (compiled st))"
    by (rule go_cached_Lazy)
next
  assume "later h n st st1 \<and> go_cache st m = Some a"
  then show "go_cached h n m st1 = (Inr a, st1)" by (blast intro: later_cache)
next
  assume "lazy_at st a = Some (k, None) \<and> go_cached h n (thunk h k) st = (Inl e, st1)"
  then show "is_cached h n (Suc d) a v st = (Throws e, st1)" by (blast intro: is_cached_throws)
next
  assume l: "later h n st st1 \<and> lazy_at st a = Some (k, Some b)"
  then show c: "lazy_at st1 a = Some (k, Some b)" by (blast intro: later_cell)
  then show "is_cached h n (Suc d) a v st1 = is_cached h n d b v st1" by (rule is_cached_filled)
next
  assume "later h n empty_store st"
  then show "distinct (compiled st)" by (rule later_once)
next
  show "fst (go_cached list_host 0 list_meta empty_store) = Inr 0" by (rule list_compiled)
next
  show "fst (is_each list_host 0 12 0 list_values list_store) =
     [Returns True, Returns True, Returns False, Returns False, Returns False]"
    by (rule list_run)
next
  show "compiled list_store_used = [0]" by (rule list_run)
next
  assume "3 \<le> n'"
  then show "\<exists>g. go list_host n' list_meta = Inr g \<and>
         map (guard_is g) list_values =
           [Returns True, Returns True, Returns False, Returns False, Returns False]"
    by (rule list_verdicts)
qed

theorem recursive_node_compiles_and_validates_witness:
  "go_cached loop_host 0 (Lazy list_symbol 0) empty_store =
     (Inr 0, Store [LazyObj list_symbol 0 None] [Lazy list_symbol 0 \<mapsto> 0] []) \<and>
   go_cached list_host 0 list_meta list_store_used = (Inr 0, list_store_used) \<and>
   is_cached broken_host 0 (Suc 0) 0 Null
       (Store [LazyObj list_symbol 0 None] [Lazy list_symbol 0 \<mapsto> 0] []) =
     (Throws (Error (missing_message (Symbol 2 None))),
      Store [LazyObj list_symbol 0 None] [Lazy list_symbol 0 \<mapsto> 0] []) \<and>
   lazy_at list_store_used 0 = Some (0, Some 4) \<and>
   lazy_at (snd (is_cached list_host 0 12 0 Null list_store_used)) 0 = Some (0, Some 4) \<and>
   distinct (compiled list_store_used) \<and>
   (\<exists>g. go list_host 3 list_meta = Inr g \<and>
      map (guard_is g) list_values =
        [Returns True, Returns True, Returns False, Returns False, Returns False])"
proof -
  note main = recursive_node_compiles_and_validates
  let ?st = "Store [LazyObj list_symbol 0 None] [Lazy list_symbol 0 \<mapsto> 0] []"
  have "go_cache empty_store (Lazy list_symbol 0) = None" by (simp add: empty_store_def)
  with main [THEN conjunct1, of empty_store list_symbol 0 loop_host 0]
  have 1: "go_cached loop_host 0 (Lazy list_symbol 0) empty_store = (Inr 0, ?st)"
    by (simp add: empty_store_def)
  have "later list_host 0 list_store list_store_used \<and> go_cache list_store list_meta = Some 0"
    using list_store_used_later list_compiled(2) by simp
  with main [THEN conjunct2, THEN conjunct1, of list_host 0 list_store list_store_used list_meta 0]
  have 2: "go_cached list_host 0 list_meta list_store_used = (Inr 0, list_store_used)" by blast
  have "lazy_at ?st 0 = Some (0, None) \<and>
      go_cached broken_host 0 (thunk broken_host 0) ?st =
        (Inl (Error (missing_message (Symbol 2 None))), ?st)"
    by (simp add: lazy_at_def obj_at_def broken_host_def)
  with main [THEN conjunct2, THEN conjunct2, THEN conjunct1,
      of ?st 0 0 broken_host 0 "Error (missing_message (Symbol 2 None))" ?st 0 Null]
  have 3: "is_cached broken_host 0 (Suc 0) 0 Null ?st =
      (Throws (Error (missing_message (Symbol 2 None))), ?st)" by blast
  let ?st1 = "snd (is_cached list_host 0 12 0 Null list_store_used)"
  have "later list_host 0 list_store_used ?st1"
    using later_refl by (rule later_is) (rule surjective_pairing)
  with list_run(3) have "later list_host 0 list_store_used ?st1 \<and>
      lazy_at list_store_used 0 = Some (0, Some 4)" by simp
  with main [THEN conjunct2, THEN conjunct2, THEN conjunct2, THEN conjunct1,
      of list_host 0 list_store_used ?st1 0 0 4]
  have 4: "lazy_at ?st1 0 = Some (0, Some 4)" by blast
  have "later list_host 0 empty_store list_store_used"
  proof -
    have "later list_host 0 empty_store (snd (is_each list_host 0 12 0 list_values list_store))"
      using list_store_later by (rule is_each_later)
    then show ?thesis by (simp add: list_store_used_def)
  qed
  with main [THEN conjunct2, THEN conjunct2, THEN conjunct2, THEN conjunct2, THEN conjunct1,
      of list_host 0 list_store_used]
  have 5: "distinct (compiled list_store_used)" by blast
  have "(3 :: nat) \<le> 3" by simp
  with main [THEN conjunct2, THEN conjunct2, THEN conjunct2, THEN conjunct2, THEN conjunct2,
      THEN conjunct2, THEN conjunct2, THEN conjunct2, of 3]
  have 6: "\<exists>g. go list_host 3 list_meta = Inr g \<and>
      map (guard_is g) list_values =
        [Returns True, Returns True, Returns False, Returns False, Returns False]" by blast
  from 1 2 3 list_run(3) 4 5 6 show ?thesis by blast
qed

section \<open>When a guard throws, and when it returns\<close>







lemma long_list_not_null [simp]: "long_list k \<noteq> Null"
  by (cases k) simp_all






section \<open>The bound on the length\<close>

text \<open>
  Claim C8 says that \<^verbatim>\<open>minLength(n)(g)\<close> accepts a strict subset of what \<^verbatim>\<open>g\<close> accepts.
  It does not for \<^verbatim>\<open>n = 0\<close> and the guard \<^verbatim>\<open>string\<close>: every string has a length of at
  least \<open>0\<close>, and the two guards accept the same values.
\<close>

theorem minLength_strict_subset_counterexample:
  "\<not> accepted (minLength plain_host (Fin 0) string) \<subset> accepted string"
proof -
  have "accepted (minLength plain_host (Fin 0) string) = accepted string"
  proof (intro set_eqI iffI)
    fix a assume "a \<in> accepted string"
    then obtain s where "a = Str s" by (auto simp: accepted_def typeof_TString)
    then show "a \<in> accepted (minLength plain_host (Fin 0) string)"
      by (simp add: minLength_accepted) (simp add: accepted_def js_ge_def)
  qed (simp add: minLength_accepted)
  then show ?thesis by simp
qed

text \<open>
  Claim C8, amended. \<^verbatim>\<open>minLength(n)(g)\<close> accepts a subset of what \<^verbatim>\<open>g\<close> accepts, the whole
  of it or less, and for \<^verbatim>\<open>n' >= n\<close> what \<^verbatim>\<open>minLength(n')(g)\<close> accepts is a subset of what
  \<^verbatim>\<open>minLength(n)(g)\<close> accepts.
\<close>

theorem minLength_monotone:
  "accepted (minLength h n g) \<subseteq> accepted g \<and>
   (js_ge n' n \<longrightarrow> accepted (minLength h n' g) \<subseteq> accepted (minLength h n g))"
proof (intro conjI impI subsetI)
  fix a assume "a \<in> accepted (minLength h n g)"
  then show "a \<in> accepted g" by (simp add: minLength_accepted)
next
  fix a assume ge: "js_ge n' n" and a: "a \<in> accepted (minLength h n' g)"
  from a obtain l x where "a \<in> accepted g" "get_length a = Inr l" "to_numeric h l = Inr x"
    "js_ge x n'" by (auto simp: minLength_accepted)
  moreover from \<open>js_ge x n'\<close> ge have "js_ge x n" by (rule js_ge_trans)
  ultimately show "a \<in> accepted (minLength h n g)" by (simp add: minLength_accepted)
qed

theorem minLength_monotone_witness:
  "js_ge (Fin 2) (Fin 1) \<and>
   accepted (minLength plain_host (Fin 2) string) \<subseteq> accepted (minLength plain_host (Fin 1) string) \<and>
   accepted (minLength plain_host (Fin 1) string) \<subseteq> accepted string \<and>
   Str (ascii ''ab'') \<in> accepted (minLength plain_host (Fin 2) string) \<and>
   Str (ascii ''a'') \<in> accepted (minLength plain_host (Fin 1) string) \<and>
   Str (ascii ''a'') \<notin> accepted (minLength plain_host (Fin 2) string)"
proof -
  have ge: "js_ge (Fin 2) (Fin 1)" by (simp add: js_ge_def)
  have "Str (ascii ''ab'') \<in> accepted (minLength plain_host (Fin 2) string)"
    "Str (ascii ''a'') \<in> accepted (minLength plain_host (Fin 1) string)"
    "Str (ascii ''a'') \<notin> accepted (minLength plain_host (Fin 2) string)"
    by (simp_all add: minLength_accepted) (simp_all add: accepted_def js_ge_def)
  with ge minLength_monotone [of plain_host "Fin 1" string "Fin 2"] show ?thesis by blast
qed

section \<open>Tuples shorter than their components\<close>

text \<open>
  Claim C9. A positional element that is missing is checked as \<^verbatim>\<open>undefined\<close>: on an
  array no longer than the component list the verdict is that of the components, each
  asked about its element, or about \<^verbatim>\<open>undefined\<close> where the array has ended; the rest
  element has nothing to check. So when every component accepts \<^verbatim>\<open>undefined\<close> the empty
  array is accepted, and a missing component is rejected only by its own guard.
\<close>

theorem tuple_missing_element_is_undefined:
  assumes "go h n (Tuple components restElement) = Inr g"
    and "map (go h n) components = map Inr cs"
    and "length xs \<le> length cs"
  shows "(guard_is g (Arr xs) = Returns True \<longleftrightarrow>
            (\<forall>i<length cs. guard_is (cs ! i) (if i < length xs then xs ! i else Undefined) = Returns True)) \<and>
         ((\<forall>i<length cs. guard_is (cs ! i) Undefined = Returns True) \<longrightarrow>
            guard_is g (Arr []) = Returns True)"
proof -
  from assms(1) obtain gs rg where gs: "map (go h n) components = map Inr gs"
    and g: "g = make (tuple_is gs rg)"
    by (rule go_Tuple_Inr)
  from gs assms(2) have "map Inr gs = (map Inr cs :: (error + guard) list)" by simp
  then have eq: "gs = cs" by (simp add: inj_map_eq_map)
  have short: "guard_is g (Arr ys) = Returns True \<longleftrightarrow>
      (\<forall>i<length cs. guard_is (cs ! i) (at_index ys i) = Returns True)"
    if "length ys \<le> length cs" for ys
    using that unfolding g eq by (simp add: tuple_is_True_iff split: option.splits)
  show ?thesis
    using short [OF assms(3)] short [of "[]"] by (simp add: at_index_def)
qed

theorem tuple_missing_element_is_undefined_witness:
  "\<exists>g. go plain_host 0 (Tuple [Of LUndefined, UnionM [Number None None, Of LUndefined]] (Some Boolean)) = Inr g \<and>
       guard_is g (Arr []) = Returns True \<and>
       guard_is g (Arr [Undefined]) = Returns True \<and>
       guard_is g (Arr [Num (Fin 1)]) = Returns False"
proof -
  let ?u = "make (\<lambda>u. Returns (strict_equals u LUndefined))"
  let ?cs = "[?u, make (union_is [number, ?u])]"
  let ?m = "Tuple [Of LUndefined, UnionM [Number None None, Of LUndefined]] (Some Boolean)"
  let ?g = "make (tuple_is ?cs (Some boolean))"
  have c: "go plain_host 0 ?m = Inr ?g" by simp
  have m: "map (go plain_host 0) [Of LUndefined, UnionM [Number None None, Of LUndefined]] = map Inr ?cs"
    by simp
  have u: "\<forall>i<length ?cs. guard_is (?cs ! i) Undefined = Returns True"
    by (simp add: less_Suc_eq union_is_def number_def)
  have l0: "length ([] :: jsval list) \<le> length ?cs" by simp
  have l1: "length [Undefined] \<le> length ?cs" by simp
  have l2: "length [Num (Fin 1)] \<le> length ?cs" by simp
  have "guard_is ?g (Arr []) = Returns True"
    using tuple_missing_element_is_undefined [OF c m l0] u by blast
  moreover have "guard_is ?g (Arr [Undefined]) = Returns True"
    using tuple_missing_element_is_undefined [OF c m l1]
    by (simp add: less_Suc_eq union_is_def number_def)
  moreover have "guard_is ?g (Arr [Num (Fin 1)]) = Returns False"
    by (simp add: tuple_is_def at_index_def)
  ultimately show ?thesis using c by blast
qed

section \<open>Tuples and values that are not arrays\<close>

text \<open>
  Claim C10. The guard compiled from a \<^verbatim>\<open>Tuple\<close> node returns \<^verbatim>\<open>false\<close> for every input
  that is not a genuine array, whatever the guards of the components and of the rest
  element do: a string, a typed array, or an object with numeric keys and a \<^verbatim>\<open>length\<close>.
\<close>

theorem tuple_rejects_non_array:
  assumes "go h n (Tuple components restElement) = Inr g" and "\<not> isArray a"
  shows "guard_is g a = Returns False"
proof -
  from assms(1) obtain gs rg where "g = make (tuple_is gs rg)"
    by (rule go_Tuple_Inr)
  with assms(2) show ?thesis by (simp add: tuple_is_non_array)
qed

theorem tuple_rejects_non_array_witness:
  "\<exists>g. go plain_host 0 (Tuple [Boolean] (Some Boolean)) = Inr g \<and>
       \<not> isArray array_like \<and> guard_is g array_like = Returns False \<and>
       \<not> isArray (Str (ascii ''ab'')) \<and> guard_is g (Str (ascii ''ab'')) = Returns False \<and>
       guard_is g (Arr [Bool True]) = Returns True"
proof -
  let ?g = "make (tuple_is [boolean] (Some boolean))"
  have c: "go plain_host 0 (Tuple [Boolean] (Some Boolean)) = Inr ?g" by simp
  have n1: "\<not> isArray array_like" by (simp add: array_like_def object_literal_def)
  have n2: "\<not> isArray (Str (ascii ''ab''))" by simp
  have "guard_is ?g (Arr [Bool True]) = Returns True"
    by (simp add: tuple_is_def boolean_def at_index_def)
  with c n1 n2 tuple_rejects_non_array [OF c n1] tuple_rejects_non_array [OF c n2]
  show ?thesis by blast
qed

end
